theory Spec2Isabelle
  imports Main "HOL-Library.Word"
begin

section \<open>Metric lists of the aggregator (src/aggregator/aggregator/list.go)\<close>

text \<open>
  A shallow embedding of \<^verbatim>\<open>metricList\<close> and \<^verbatim>\<open>metricLists\<close>. Every method becomes a
  function from the receiver's state to the new state. The locks of the source guard whole
  method bodies, which the embedding executes one after another, or whole phases of
  \<^verbatim>\<open>Flush\<close>: \<open>Flush\<close> is a flush that no other call interrupts, \<open>FlushWith\<close> one
  during which other goroutines call the list where its lock is not held.

  The collaborators that live outside the file (the msgpack encoder and its pool, the flush
  handler, the metric elements, the clock) are taken as parameters. What the list does to
  them is recorded in the state: the buffers given to the handler, the handles on which
  \<^verbatim>\<open>Consume\<close> and \<^verbatim>\<open>Close\<close> were invoked.
\<close>

subsection \<open>Data\<close>

type_synonym bytes = "8 word list"

text \<open>\<^verbatim>\<open>time.Duration\<close> is an \<^verbatim>\<open>int64\<close>; its order is the signed one.\<close>

type_synonym duration = "64 word"

type_synonym int64 = "64 word"

text \<open>The two errors of the file, and the opaque error of a collaborator.\<close>

datatype error = errListClosed | errListsClosed | errExternal

text \<open>
  A failed type assertion \<^verbatim>\<open>e.Value.(metricElem)\<close> panics. It is the only panic the
  code of the file can raise itself: the slice and the truncations of
  \<^verbatim>\<open>processAggregatedMetric\<close> stay within the buffer. A panic inside an element's
  \<^verbatim>\<open>Consume\<close> is not recovered by the list and ends the flush as well.
\<close>

datatype panic = InterfaceConversion | ElemPanic

text \<open>
  The counters of \<^verbatim>\<open>metricListMetrics\<close> (the timer \<^verbatim>\<open>flushDuration\<close> measures wall-clock
  time and is left out).
\<close>

record metricListMetrics =
  encodeErrors :: nat
  flushCollected :: nat
  flushSuccess :: nat
  flushErrors :: nat

text \<open>
  A value of type \<^verbatim>\<open>interface{}\<close>, as \<^verbatim>\<open>PushBack\<close> accepts it and an element of the
  list holds it: \<^verbatim>\<open>nil\<close>, a metric element, or a value of a type that does not implement
  \<^verbatim>\<open>metricElem\<close>.
\<close>

datatype 'e payload = NilValue | ElemValue 'e | OtherValue

text \<open>
  A \<^verbatim>\<open>*list.Element\<close> of \<^verbatim>\<open>container/list\<close>: an identity (the pointer, here a number
  drawn from the list's allocation counter) and the payload \<^verbatim>\<open>Value interface{}\<close>.
\<close>

record 'e Element =
  ident :: nat
  Value :: "'e payload"

text \<open>
  Modelled from the spec: the aggregated encoder of the msgpack package, which is not in
  the repository. It wraps the buffered encoder it currently writes to (here the bytes of
  that buffer) and an error that, once set, makes every later call fail until
  \<^verbatim>\<open>Reset\<close>.
\<close>

record AggregatedEncoder =
  Encoder :: bytes
  err :: "error option"

text \<open>
  The options a list reads. \<open>recordOf\<close> stands for the wire format of the encoder that
  the pool supplies: the bytes that encoding one metric appends to the buffer, and the
  error if encoding fails (after possibly writing a part of the record).
  \<open>FlushHandler\<close> is the result of \<^verbatim>\<open>Handle\<close> on a buffer, given the buffers the handler
  received before. \<open>BufferedEncoderPool\<close> holds the contents of the recycled encoders the
  pool will supply, in the order in which it supplies them.
\<close>

record 's Options =
  MinFlushInterval :: duration
  MaxFlushSize :: int
  FlushHandler :: "bytes list \<Rightarrow> bytes \<Rightarrow> error option"
  BufferedEncoderPool :: "bytes list"
  recordOf :: "'s \<Rightarrow> bytes \<times> error option"

record ('e, 's) metricList =
  opts :: "'s Options"
  maxFlushSize :: int
  flushHandler :: "bytes list \<Rightarrow> bytes \<Rightarrow> error option"
  encoderPool :: "bytes list"
  resolution :: duration
  flushInterval :: duration
  aggregations :: "'e Element list"
  encoder :: AggregatedEncoder
  toCollect :: "nat list"
  closed :: bool
  metrics :: metricListMetrics
  nextElement :: nat
  handled :: "bytes list"
  consumed :: "nat list"
  elemClosed :: "nat list"

text \<open>
  The fields \<^verbatim>\<open>encodeFn\<close> and \<^verbatim>\<open>aggMetricFn\<close> of the struct are assigned once, in
  \<^verbatim>\<open>newMetricList\<close>, to the encoder's \<^verbatim>\<open>EncodeChunkedMetricWithPolicy\<close> and to the list's
  own \<^verbatim>\<open>processAggregatedMetric\<close>; the embedding calls these two directly.
  The last four fields are not fields of the Go struct. \<open>nextElement\<close> is the allocator
  of element identities; \<open>handled\<close> lists the buffers passed to
  \<^verbatim>\<open>flushHandler.Handle\<close>, oldest first; \<open>consumed\<close> and \<open>elemClosed\<close> list the
  handles on whose payload \<^verbatim>\<open>Consume\<close> and \<^verbatim>\<open>Close\<close> were called.
\<close>

text \<open>
  The interface \<^verbatim>\<open>metricElem\<close>. \<open>Consume e t\<close> panics, or gives the metrics the element
  passes to the callback, in order, whether the element may be collected, and the element
  afterwards. The callback returns nothing, so the element cannot observe what the list does
  with a metric.
\<close>

type_synonym ('e, 's) metricElem = "'e \<Rightarrow> int64 \<Rightarrow> panic + 's list \<times> bool \<times> 'e"

subsection \<open>The encoder and its pool\<close>

text \<open>
  Modelled from the spec: \<^verbatim>\<open>EncodeChunkedMetricWithPolicy\<close>. With the error set nothing is
  written and the error is returned; otherwise the bytes of the record are appended, and a
  failure is remembered.
\<close>

definition EncodeChunkedMetricWithPolicy ::
  "('s \<Rightarrow> bytes \<times> error option) \<Rightarrow> AggregatedEncoder \<Rightarrow> 's \<Rightarrow> AggregatedEncoder \<times> error option"
where
  "EncodeChunkedMetricWithPolicy wire enc mp =
     (case err enc of
        Some e \<Rightarrow> (enc, Some e)
      | None \<Rightarrow>
          (let (bs, res) = wire mp
           in (\<lparr>Encoder = Encoder enc @ bs, err = res\<rparr>, res)))"

text \<open>Modelled from the spec: \<^verbatim>\<open>NewAggregatedEncoder\<close> and \<^verbatim>\<open>AggregatedEncoder.Reset\<close>.\<close>

definition NewAggregatedEncoder :: "bytes \<Rightarrow> AggregatedEncoder" where
  "NewAggregatedEncoder b = \<lparr>Encoder = b, err = None\<rparr>"

definition Reset :: "AggregatedEncoder \<Rightarrow> bytes \<Rightarrow> AggregatedEncoder" where
  "Reset enc b = enc\<lparr>Encoder := b, err := None\<rparr>"

text \<open>
  Modelled from the spec: \<^verbatim>\<open>BufferedEncoderPool.Get\<close> supplies a recycled encoder, or a
  new one when the pool is empty. The encoder it supplies is never the one the list is
  writing to: that one is not in the pool. \<^verbatim>\<open>Flush\<close> and \<^verbatim>\<open>processAggregatedMetric\<close>
  reset the encoder they get; \<^verbatim>\<open>newMetricList\<close> uses it as the pool supplies it.
\<close>

fun Get :: "bytes list \<Rightarrow> bytes \<times> bytes list" where
  "Get [] = ([], [])"
| "Get (b # pool) = (b, pool)"

text \<open>\<^verbatim>\<open>BufferedEncoder.Reset\<close> empties the buffer; \<^verbatim>\<open>Buffer.Truncate(n)\<close> keeps \<open>n\<close> bytes.\<close>

definition BufferedEncoder_Reset :: "bytes \<Rightarrow> bytes" where
  "BufferedEncoder_Reset b = []"

definition Truncate :: "bytes \<Rightarrow> nat \<Rightarrow> bytes" where
  "Truncate b n = take n b"

subsection \<open>Construction, \<^verbatim>\<open>PushBack\<close>, \<^verbatim>\<open>Close\<close>\<close>

definition newMetricListMetrics :: metricListMetrics where
  "newMetricListMetrics =
     \<lparr>encodeErrors = 0, flushCollected = 0, flushSuccess = 0, flushErrors = 0\<rparr>"

definition newMetricList :: "duration \<Rightarrow> 's Options \<Rightarrow> ('e, 's) metricList" where
  "newMetricList res os =
     (let flushInterval0 = res;
          minFlushInterval = MinFlushInterval os;
          flushInterval1 =
            (if flushInterval0 <s minFlushInterval then minFlushInterval else flushInterval0);
          (b, pool) = Get (BufferedEncoderPool os)
      in \<lparr>opts = os,
          maxFlushSize = MaxFlushSize os,
          flushHandler = FlushHandler os,
          encoderPool = pool,
          resolution = res,
          flushInterval = flushInterval1,
          aggregations = [],
          encoder = NewAggregatedEncoder b,
          toCollect = [],
          closed = False,
          metrics = newMetricListMetrics,
          nextElement = 0,
          handled = [],
          consumed = [],
          elemClosed = []\<rparr>)"

definition FlushInterval :: "('e, 's) metricList \<Rightarrow> duration" where
  "FlushInterval l = flushInterval l"

definition Resolution :: "('e, 's) metricList \<Rightarrow> duration" where
  "Resolution l = resolution l"

definition Len :: "('e, 's) metricList \<Rightarrow> nat" where
  "Len l = length (aggregations l)"

definition PushBack ::
  "('e, 's) metricList \<Rightarrow> 'e payload \<Rightarrow> (error + nat) \<times> ('e, 's) metricList" where
  "PushBack l v =
     (if closed l then (Inl errListClosed, l)
      else
        (let elem = \<lparr>ident = nextElement l, Value = v\<rparr>
         in (Inr (ident elem),
             l\<lparr>aggregations := aggregations l @ [elem],
               nextElement := Suc (nextElement l)\<rparr>)))"

definition Close :: "('e, 's) metricList \<Rightarrow> ('e, 's) metricList" where
  "Close l = (if closed l then l else l\<lparr>closed := True\<rparr>)"

subsection \<open>\<^verbatim>\<open>processAggregatedMetric\<close>\<close>

text \<open>
  The callback every element invokes once per metric it emits. The locals \<^verbatim>\<open>encoder\<close>
  and \<^verbatim>\<open>buffer\<close> of the source keep pointing at the buffered encoder that was current on
  entry, also after \<^verbatim>\<open>l.encoder.Reset(encoder2)\<close> has made \<^verbatim>\<open>encoder2\<close> the current
  one: \<open>data\<close> below are the bytes of that first encoder, and what is truncated and
  handled is that first encoder. The slice \<^verbatim>\<open>data[sizeBefore:sizeAfter]\<close> is within
  bounds, since the encoder only appends. Logging is left out.
\<close>

definition processAggregatedMetric :: "('e, 's) metricList \<Rightarrow> 's \<Rightarrow> ('e, 's) metricList" where
  "processAggregatedMetric l mp =
     (let buffer = Encoder (encoder l);
          sizeBefore = length buffer;
          (enc1, res) = EncodeChunkedMetricWithPolicy (recordOf (opts l)) (encoder l) mp
      in case res of
           Some e \<Rightarrow>
             l\<lparr>metrics := (metrics l)\<lparr>encodeErrors := encodeErrors (metrics l) + 1\<rparr>,
               encoder := Reset enc1 (Truncate (Encoder enc1) sizeBefore)\<rparr>
         | None \<Rightarrow>
             (let sizeAfter = length (Encoder enc1)
              in if int sizeAfter < maxFlushSize l then l\<lparr>encoder := enc1\<rparr>
                 else
                   (let (encoder2, pool) = Get (encoderPool l);
                        encoder2 = BufferedEncoder_Reset encoder2;
                        data = Encoder enc1;
                        encoder2 = encoder2 @ drop sizeBefore (take sizeAfter data);
                        old = Truncate data sizeBefore;
                        m = metrics l
                    in l\<lparr>encoderPool := pool,
                         encoder := Reset enc1 encoder2,
                         handled := handled l @ [old],
                         metrics :=
                           (case flushHandler l (handled l) old of
                              Some e \<Rightarrow> m\<lparr>flushErrors := flushErrors m + 1\<rparr>
                            | None \<Rightarrow> m\<lparr>flushSuccess := flushSuccess m + 1\<rparr>)\<rparr>)))"

subsection \<open>\<^verbatim>\<open>Flush\<close>\<close>

text \<open>
  The loop over \<^verbatim>\<open>l.aggregations\<close> (lines 182 to 191). It visits every element once, from
  the front, and returns the elements as the loop leaves them. The type assertion has no
  second result, so a payload that is not a metric element, \<^verbatim>\<open>nil\<close> included, panics. The
  aligned start time is computed from the clock before the loop and is a parameter here.
\<close>

fun consumeElems ::
  "('e, 's) metricElem \<Rightarrow> int64 \<Rightarrow> 'e Element list \<Rightarrow> ('e, 's) metricList \<Rightarrow>
     panic + 'e Element list \<times> ('e, 's) metricList"
where
  "consumeElems Consume alignedStartNanos [] l = Inr ([], l)"
| "consumeElems Consume alignedStartNanos (e # es) l =
     (case Value e of
        ElemValue elem \<Rightarrow>
          (case Consume elem alignedStartNanos of
             Inl p \<Rightarrow> Inl p
           | Inr (mps, done, elem') \<Rightarrow>
               (let l1 = foldl processAggregatedMetric
                           (l\<lparr>consumed := consumed l @ [ident e]\<rparr>) mps;
                    (e', l2) =
                      (if done
                       then (e\<lparr>Value := NilValue\<rparr>,
                             l1\<lparr>elemClosed := elemClosed l1 @ [ident e],
                                toCollect := toCollect l1 @ [ident e]\<rparr>)
                       else (e\<lparr>Value := ElemValue elem'\<rparr>, l1))
                in case consumeElems Consume alignedStartNanos es l2 of
                     Inl p \<Rightarrow> Inl p
                   | Inr (es', l3) \<Rightarrow> Inr (e' # es', l3)))
      | _ \<Rightarrow> Inl InterfaceConversion)"

text \<open>Lines 194 to 205: flush the remaining bytes in the buffer.\<close>

definition flushRemaining :: "('e, 's) metricList \<Rightarrow> ('e, 's) metricList" where
  "flushRemaining l =
     (let old = Encoder (encoder l)
      in if length old > 0 then
           (let (newEncoder, pool) = Get (encoderPool l);
                newEncoder = BufferedEncoder_Reset newEncoder;
                m = metrics l
            in l\<lparr>encoderPool := pool,
                 encoder := Reset (encoder l) newEncoder,
                 handled := handled l @ [old],
                 metrics :=
                   (case flushHandler l (handled l) old of
                      Some e \<Rightarrow> m\<lparr>flushErrors := flushErrors m + 1\<rparr>
                    | None \<Rightarrow> m\<lparr>flushSuccess := flushSuccess m + 1\<rparr>)\<rparr>)
         else l)"

text \<open>\<^verbatim>\<open>list.Remove\<close> unlinks the element with the given identity, if it is in the list.\<close>

definition Remove :: "'e Element list \<Rightarrow> nat \<Rightarrow> 'e Element list" where
  "Remove es i = filter (\<lambda>e. ident e \<noteq> i) es"

text \<open>Lines 207 to 215: collect the tombstoned elements.\<close>

definition collectTombstoned :: "('e, 's) metricList \<Rightarrow> ('e, 's) metricList" where
  "collectTombstoned l =
     (let numCollected = length (toCollect l);
          m = metrics l
      in l\<lparr>aggregations := foldl Remove (aggregations l) (toCollect l),
           metrics := m\<lparr>flushCollected := flushCollected m + numCollected\<rparr>\<rparr>)"

definition Flush ::
  "('e, 's) metricElem \<Rightarrow> int64 \<Rightarrow> ('e, 's) metricList \<Rightarrow> panic + ('e, 's) metricList" where
  "Flush Consume alignedStartNanos l =
     (let l0 = l\<lparr>toCollect := []\<rparr>
      in case consumeElems Consume alignedStartNanos (aggregations l0) l0 of
           Inl p \<Rightarrow> Inl p
         | Inr (es, l1) \<Rightarrow> Inr (collectTombstoned (flushRemaining (l1\<lparr>aggregations := es\<rparr>))))"

text \<open>
  The list's lock is not held from the end of the loop (\<^verbatim>\<open>RUnlock\<close>, line 192) to the
  collection (\<^verbatim>\<open>Lock\<close>, line 208): in between, other goroutines can call \<^verbatim>\<open>PushBack\<close>
  and \<^verbatim>\<open>Close\<close>, which take the write lock. During the loop they cannot. These calls and
  the flushing of the remaining bytes touch different fields, so it does not matter where in
  that interval they happen; \<open>FlushWith\<close> puts them just before the collection.
  \<open>consumeAll\<close> is the flush up to the end of the loop (lines 176 to 192).
\<close>

datatype 'e concurrent = ConcPushBack "'e payload" | ConcClose

fun interleaved :: "'e concurrent list \<Rightarrow> ('e, 's) metricList \<Rightarrow> ('e, 's) metricList" where
  "interleaved [] l = l"
| "interleaved (ConcPushBack v # cs) l = interleaved cs (snd (PushBack l v))"
| "interleaved (ConcClose # cs) l = interleaved cs (Close l)"

definition consumeAll ::
  "('e, 's) metricElem \<Rightarrow> int64 \<Rightarrow> ('e, 's) metricList \<Rightarrow> panic + ('e, 's) metricList" where
  "consumeAll Consume alignedStartNanos l =
     (let l0 = l\<lparr>toCollect := []\<rparr>
      in case consumeElems Consume alignedStartNanos (aggregations l0) l0 of
           Inl p \<Rightarrow> Inl p
         | Inr (es, l1) \<Rightarrow> Inr (l1\<lparr>aggregations := es\<rparr>))"

definition FlushWith ::
  "('e, 's) metricElem \<Rightarrow> int64 \<Rightarrow> 'e concurrent list \<Rightarrow> ('e, 's) metricList \<Rightarrow>
     panic + ('e, 's) metricList" where
  "FlushWith Consume alignedStartNanos others l =
     (case consumeAll Consume alignedStartNanos l of
        Inl p \<Rightarrow> Inl p
      | Inr l1 \<Rightarrow> Inr (collectTombstoned (interleaved others (flushRemaining l1))))"

subsection \<open>Runs of one list\<close>

text \<open>
  The calls a list can receive, and a run of them in sequence. A panic ends the run.
\<close>

datatype 'e call = CallPushBack "'e payload" | CallClose | CallFlush int64

fun step ::
  "('e, 's) metricElem \<Rightarrow> 'e call \<Rightarrow> ('e, 's) metricList \<Rightarrow> panic + ('e, 's) metricList" where
  "step Consume (CallPushBack v) l = Inr (snd (PushBack l v))"
| "step Consume CallClose l = Inr (Close l)"
| "step Consume (CallFlush t) l = Flush Consume t l"

fun run ::
  "('e, 's) metricElem \<Rightarrow> 'e call list \<Rightarrow> ('e, 's) metricList \<Rightarrow> panic + ('e, 's) metricList"
where
  "run Consume [] l = Inr l"
| "run Consume (c # cs) l =
     (case step Consume c l of Inl p \<Rightarrow> Inl p | Inr l' \<Rightarrow> run Consume cs l')"

subsection \<open>The registry \<^verbatim>\<open>metricLists\<close>\<close>

text \<open>
  The map \<^verbatim>\<open>lists\<close> (here \<open>listsMap\<close>) holds pointers. A pointer is a position in
  \<open>heap\<close>, the lists allocated so far; \<open>flushMgr\<close> holds the pointers registered with the flush manager.
  These two are not fields of the struct. The map is an association list read with
  \<open>map_of\<close>; a key is added only when it is absent.
\<close>

record ('e, 's) metricLists =
  lists_opts :: "'s Options"
  lists_closed :: bool
  listsMap :: "(duration \<times> nat) list"
  heap :: "('e, 's) metricList list"
  flushMgr :: "nat list"

definition newMetricLists :: "'s Options \<Rightarrow> ('e, 's) metricLists" where
  "newMetricLists os =
     \<lparr>lists_opts = os, lists_closed = False, listsMap = [], heap = [], flushMgr = []\<rparr>"

text \<open>
  \<^verbatim>\<open>newMetricListFn\<close>: the allocation of \<^verbatim>\<open>newMetricList\<close>'s result and its registration
  with the flush manager (lines 119 and 120).
\<close>

definition newMetricListFn ::
  "duration \<Rightarrow> 's Options \<Rightarrow> ('e, 's) metricLists \<Rightarrow> nat \<times> ('e, 's) metricLists" where
  "newMetricListFn res os ls =
     (let l = length (heap ls)
      in (l, ls\<lparr>heap := heap ls @ [newMetricList res os], flushMgr := flushMgr ls @ [l]\<rparr>))"

definition Lists_Len :: "('e, 's) metricLists \<Rightarrow> nat" where
  "Lists_Len ls = length (listsMap ls)"

definition FindOrCreate ::
  "('e, 's) metricLists \<Rightarrow> duration \<Rightarrow> (error + nat) \<times> ('e, 's) metricLists" where
  "FindOrCreate ls res =
     (if lists_closed ls then (Inl errListsClosed, ls)
      else
        (case map_of (listsMap ls) res of
           Some list \<Rightarrow> (Inr list, ls)
         | None \<Rightarrow>
             (if lists_closed ls then (Inl errListsClosed, ls)
              else
                (case map_of (listsMap ls) res of
                   Some list \<Rightarrow> (Inr list, ls)
                 | None \<Rightarrow>
                     (let (list, ls1) = newMetricListFn res (lists_opts ls) ls
                      in (Inr list, ls1\<lparr>listsMap := (res, list) # listsMap ls1\<rparr>))))))"

definition Tick :: "('e, 's) metricLists \<Rightarrow> (duration \<times> nat) list" where
  "Tick ls = map (\<lambda>(r, p). (Resolution (heap ls ! p), Len (heap ls ! p))) (listsMap ls)"

text \<open>Closing the list a pointer refers to.\<close>

definition closeAt :: "('e, 's) metricList list \<Rightarrow> nat \<Rightarrow> ('e, 's) metricList list" where
  "closeAt h p = h[p := Close (h ! p)]"

definition Lists_Close :: "('e, 's) metricLists \<Rightarrow> ('e, 's) metricLists" where
  "Lists_Close ls =
     (if lists_closed ls then ls
      else ls\<lparr>lists_closed := True, heap := foldl closeAt (heap ls) (map snd (listsMap ls))\<rparr>)"

subsection \<open>Notions used in the properties\<close>

text \<open>
  What \<^verbatim>\<open>Consume\<close> answers for the payload of an element, when the payload is a metric
  element and \<^verbatim>\<open>Consume\<close> returns: the metrics it emits, whether the element may be
  collected, and the element as the loop of \<^verbatim>\<open>Flush\<close> leaves it.
\<close>

definition consumeResult ::
  "('e, 's) metricElem \<Rightarrow> int64 \<Rightarrow> 'e Element \<Rightarrow> ('s list \<times> bool \<times> 'e) option" where
  "consumeResult Consume t e =
     (case Value e of
        ElemValue x \<Rightarrow> (case Consume x t of Inl p \<Rightarrow> None | Inr r \<Rightarrow> Some r)
      | _ \<Rightarrow> None)"

definition emittedBy :: "('e, 's) metricElem \<Rightarrow> int64 \<Rightarrow> 'e Element \<Rightarrow> 's list" where
  "emittedBy Consume t e =
     (case consumeResult Consume t e of None \<Rightarrow> [] | Some r \<Rightarrow> fst r)"

definition consumeDone :: "('e, 's) metricElem \<Rightarrow> int64 \<Rightarrow> 'e Element \<Rightarrow> bool" where
  "consumeDone Consume t e =
     (case consumeResult Consume t e of None \<Rightarrow> False | Some r \<Rightarrow> fst (snd r))"

definition afterConsume :: "('e, 's) metricElem \<Rightarrow> int64 \<Rightarrow> 'e Element \<Rightarrow> 'e Element" where
  "afterConsume Consume t e =
     (case consumeResult Consume t e of
        None \<Rightarrow> e
      | Some r \<Rightarrow>
          (if fst (snd r) then e\<lparr>Value := NilValue\<rparr> else e\<lparr>Value := ElemValue (snd (snd r))\<rparr>))"

text \<open>
  The identities of the elements of a list are distinct and were drawn from its allocator.
\<close>

definition list_inv :: "('e, 's) metricList \<Rightarrow> bool" where
  "list_inv l \<longleftrightarrow>
     distinct (map ident (aggregations l)) \<and> (\<forall>e \<in> set (aggregations l). ident e < nextElement l)"

text \<open>
  The records of the metrics that can be encoded, in order; the records of the metrics
  emitted in one flush, and in a run of calls.
\<close>

definition records :: "('s \<Rightarrow> bytes \<times> error option) \<Rightarrow> 's list \<Rightarrow> bytes list" where
  "records wire mps = map (\<lambda>mp. fst (wire mp)) (filter (\<lambda>mp. snd (wire mp) = None) mps)"

definition flushRecords ::
  "('e, 's) metricElem \<Rightarrow> int64 \<Rightarrow> ('e, 's) metricList \<Rightarrow> bytes list" where
  "flushRecords Consume t l =
     records (recordOf (opts l)) (concat (map (emittedBy Consume t) (aggregations l)))"

fun runRecords ::
  "('e, 's) metricElem \<Rightarrow> 'e call list \<Rightarrow> ('e, 's) metricList \<Rightarrow> bytes list" where
  "runRecords Consume [] l = []"
| "runRecords Consume (c # cs) l =
     (case step Consume c l of
        Inl p \<Rightarrow> []
      | Inr l' \<Rightarrow>
          (case c of CallFlush t \<Rightarrow> flushRecords Consume t l | _ \<Rightarrow> []) @
          runRecords Consume cs l')"

text \<open>A buffer that is a sequence of whole records.\<close>

inductive wholeRecords :: "('s \<Rightarrow> bytes \<times> error option) \<Rightarrow> bytes \<Rightarrow> bool"
  for wire :: "'s \<Rightarrow> bytes \<times> error option" where
  wholeRecords_empty: "wholeRecords wire []"
| wholeRecords_record:
    "wholeRecords wire b \<Longrightarrow> wire mp = (bs, None) \<Longrightarrow> wholeRecords wire (b @ bs)"

text \<open>
  Every pointer in the registry's map refers to an allocated list of the resolution it is
  filed under, and the lists of a closed registry are closed.
\<close>

definition lists_inv :: "('e, 's) metricLists \<Rightarrow> bool" where
  "lists_inv ls \<longleftrightarrow>
     (\<forall>(r, p) \<in> set (listsMap ls).
        p < length (heap ls) \<and> resolution (heap ls ! p) = r \<and>
        (lists_closed ls \<longrightarrow> closed (heap ls ! p)))"

subsection \<open>A small instance\<close>

text \<open>
  An instance on which the theorems below are exercised. A metric is a number \<open>n\<close>; its
  record is \<open>n\<close> bytes \<open>n\<close>, and the metric \<open>0\<close> cannot be encoded (the encoder fails
  after writing one byte). An element is the list of metrics it emits when consumed and
  whether it may then be collected. The handler fails on the second buffer it receives.
\<close>

definition exWire :: "nat \<Rightarrow> bytes \<times> error option" where
  "exWire n = (if n = 0 then ([255], Some errExternal) else (map (\<lambda>i. of_nat n) [0..<n], None))"

definition exConsume :: "(nat list \<times> bool, nat) metricElem" where
  "exConsume e t = Inr (fst e, snd e, ([], snd e))"

definition exOpts :: "nat Options" where
  "exOpts =
     \<lparr>MinFlushInterval = 5,
      MaxFlushSize = 4,
      FlushHandler = (\<lambda>hist b. if length hist = 1 then Some errExternal else None),
      BufferedEncoderPool = [],
      recordOf = exWire\<rparr>"

definition exList :: "(nat list \<times> bool, nat) metricList" where
  "exList = newMetricList 3 exOpts"

definition exPushes :: "(nat list \<times> bool) call list" where
  "exPushes = [CallPushBack (ElemValue ([1, 1, 0, 3], True)), CallPushBack (ElemValue ([2], False))]"

definition exCalls :: "(nat list \<times> bool) call list" where
  "exCalls = exPushes @ [CallFlush 10, CallClose, CallFlush 20]"

text \<open>
  A list with two elements, the same with a recycled encoder in its pool, and (further down)
  a registry with lists for the resolutions 3 and 7.
\<close>

definition exPushed :: "(nat list \<times> bool, nat) metricList" where
  "exPushed =
     snd (PushBack (snd (PushBack exList (ElemValue ([1, 1, 0, 3], True)))) (ElemValue ([2], False)))"

definition exFull :: "(nat list \<times> bool, nat) metricList" where
  "exFull = exPushed\<lparr>encoderPool := [ [9, 9] ]\<rparr>"

text \<open>
  A list whose second element has no payload, a list with one record buffered, and a flush
  of the list with two elements during which another goroutine pushes a third.
\<close>

definition exNil :: "(nat list \<times> bool, nat) metricList" where
  "exNil = snd (PushBack (snd (PushBack exList (ElemValue ([1], False)))) NilValue)"

definition exBuffered :: "(nat list \<times> bool, nat) metricList" where
  "exBuffered = processAggregatedMetric exList 3"

definition exRaced :: "panic + (nat list \<times> bool, nat) metricList" where
  "exRaced = FlushWith exConsume 10 [ConcPushBack (ElemValue ([5], False))] exPushed"

definition exLists :: "(nat list \<times> bool, nat) metricLists" where
  "exLists = snd (FindOrCreate (snd (FindOrCreate (newMetricLists exOpts) 3)) 7)"

section \<open>Properties\<close>

subsection \<open>What the operations leave unchanged\<close>

lemma EncodeChunkedMetricWithPolicy_cases:
  "EncodeChunkedMetricWithPolicy wire enc mp =
     (if err enc \<noteq> None then (enc, err enc)
      else (\<lparr>Encoder = Encoder enc @ fst (wire mp), err = snd (wire mp)\<rparr>, snd (wire mp)))"
  by (auto simp: EncodeChunkedMetricWithPolicy_def split: option.splits prod.splits)

lemma processAggregatedMetric_static:
  "opts (processAggregatedMetric l mp) = opts l"
  "maxFlushSize (processAggregatedMetric l mp) = maxFlushSize l"
  "flushHandler (processAggregatedMetric l mp) = flushHandler l"
  "resolution (processAggregatedMetric l mp) = resolution l"
  "flushInterval (processAggregatedMetric l mp) = flushInterval l"
  "closed (processAggregatedMetric l mp) = closed l"
  "aggregations (processAggregatedMetric l mp) = aggregations l"
  "toCollect (processAggregatedMetric l mp) = toCollect l"
  "nextElement (processAggregatedMetric l mp) = nextElement l"
  "consumed (processAggregatedMetric l mp) = consumed l"
  "elemClosed (processAggregatedMetric l mp) = elemClosed l"
  by (simp_all add: processAggregatedMetric_def Let_def split: prod.splits option.splits)

lemma emit_static:
  "opts (foldl processAggregatedMetric l mps) = opts l"
  "maxFlushSize (foldl processAggregatedMetric l mps) = maxFlushSize l"
  "flushHandler (foldl processAggregatedMetric l mps) = flushHandler l"
  "resolution (foldl processAggregatedMetric l mps) = resolution l"
  "flushInterval (foldl processAggregatedMetric l mps) = flushInterval l"
  "closed (foldl processAggregatedMetric l mps) = closed l"
  "aggregations (foldl processAggregatedMetric l mps) = aggregations l"
  "toCollect (foldl processAggregatedMetric l mps) = toCollect l"
  "nextElement (foldl processAggregatedMetric l mps) = nextElement l"
  "consumed (foldl processAggregatedMetric l mps) = consumed l"
  "elemClosed (foldl processAggregatedMetric l mps) = elemClosed l"
  by (induction mps arbitrary: l; simp add: processAggregatedMetric_static)+

text \<open>One turn of the loop of \<^verbatim>\<open>Flush\<close>.\<close>

lemma consumeElems_Cons_panic:
  "consumeResult Consume t e = None \<Longrightarrow> \<exists>p. consumeElems Consume t (e # es) l = Inl p"
  by (auto simp: consumeResult_def split: payload.splits sum.splits)

lemma consumeElems_Cons:
  assumes "consumeResult Consume t e = Some (mps, d, x')"
  shows "consumeElems Consume t (e # es) l =
     (case consumeElems Consume t es
        (let l1 = foldl processAggregatedMetric (l\<lparr>consumed := consumed l @ [ident e]\<rparr>) mps
         in if d
            then l1\<lparr>elemClosed := elemClosed l1 @ [ident e], toCollect := toCollect l1 @ [ident e]\<rparr>
            else l1) of
        Inl p \<Rightarrow> Inl p
      | Inr (es', l3) \<Rightarrow> Inr (afterConsume Consume t e # es', l3))"
  using assms
  by (auto simp: consumeResult_def afterConsume_def Let_def
      split: payload.splits sum.splits prod.splits)

lemma consumeElems_Cons_Inr:
  assumes "consumeElems Consume t (e # es) l = Inr (es', l')"
  obtains mps d x' es1 where "consumeResult Consume t e = Some (mps, d, x')"
    and "consumeElems Consume t es
        (let l1 = foldl processAggregatedMetric (l\<lparr>consumed := consumed l @ [ident e]\<rparr>) mps
         in if d
            then l1\<lparr>elemClosed := elemClosed l1 @ [ident e], toCollect := toCollect l1 @ [ident e]\<rparr>
            else l1) = Inr (es1, l')"
    and "es' = afterConsume Consume t e # es1"
proof (cases "consumeResult Consume t e")
  case None
  from consumeElems_Cons_panic [OF this, of es l] assms show ?thesis
    by auto
next
  case (Some r)
  obtain mps d x' where r: "r = (mps, d, x')"
    by (cases r) auto
  from assms show ?thesis
    unfolding consumeElems_Cons [OF Some [unfolded r] ]
    by (auto split: sum.splits intro: that [OF Some [unfolded r] ])
qed

lemma consumeElems_static:
  "consumeElems Consume t es l = Inr (es', l') \<Longrightarrow>
     opts l' = opts l \<and> maxFlushSize l' = maxFlushSize l \<and> flushHandler l' = flushHandler l \<and>
     resolution l' = resolution l \<and> flushInterval l' = flushInterval l \<and> closed l' = closed l \<and>
     nextElement l' = nextElement l"
proof (induction es arbitrary: l es' l')
  case Nil
  then show ?case by simp
next
  case (Cons e es)
  from Cons.prems show ?case
  proof (rule consumeElems_Cons_Inr)
    fix mps d x' es1
    assume "consumeElems Consume t es
        (let l1 = foldl processAggregatedMetric (l\<lparr>consumed := consumed l @ [ident e]\<rparr>) mps
         in if d
            then l1\<lparr>elemClosed := elemClosed l1 @ [ident e], toCollect := toCollect l1 @ [ident e]\<rparr>
            else l1) = Inr (es1, l')"
    from Cons.IH [OF this] show ?thesis
      by (simp add: Let_def emit_static split: if_splits)
  qed
qed

lemma flushRemaining_static:
  "opts (flushRemaining l) = opts l"
  "maxFlushSize (flushRemaining l) = maxFlushSize l"
  "flushHandler (flushRemaining l) = flushHandler l"
  "resolution (flushRemaining l) = resolution l"
  "flushInterval (flushRemaining l) = flushInterval l"
  "closed (flushRemaining l) = closed l"
  "aggregations (flushRemaining l) = aggregations l"
  "toCollect (flushRemaining l) = toCollect l"
  "nextElement (flushRemaining l) = nextElement l"
  "consumed (flushRemaining l) = consumed l"
  "elemClosed (flushRemaining l) = elemClosed l"
  by (simp_all add: flushRemaining_def Let_def split: prod.splits option.splits)

lemma collectTombstoned_static:
  "opts (collectTombstoned l) = opts l"
  "maxFlushSize (collectTombstoned l) = maxFlushSize l"
  "flushHandler (collectTombstoned l) = flushHandler l"
  "resolution (collectTombstoned l) = resolution l"
  "flushInterval (collectTombstoned l) = flushInterval l"
  "closed (collectTombstoned l) = closed l"
  "toCollect (collectTombstoned l) = toCollect l"
  "nextElement (collectTombstoned l) = nextElement l"
  "consumed (collectTombstoned l) = consumed l"
  "elemClosed (collectTombstoned l) = elemClosed l"
  "encoder (collectTombstoned l) = encoder l"
  "handled (collectTombstoned l) = handled l"
  "encoderPool (collectTombstoned l) = encoderPool l"
  by (simp_all add: collectTombstoned_def Let_def)

lemma Flush_static:
  "Flush Consume t l = Inr l' \<Longrightarrow>
     opts l' = opts l \<and> maxFlushSize l' = maxFlushSize l \<and> flushHandler l' = flushHandler l \<and>
     resolution l' = resolution l \<and> flushInterval l' = flushInterval l \<and> closed l' = closed l \<and>
     nextElement l' = nextElement l"
  by (auto simp: Flush_def Let_def collectTombstoned_static flushRemaining_static
      dest!: consumeElems_static split: sum.splits prod.splits)

lemma step_static:
  "step Consume c l = Inr l' \<Longrightarrow>
     opts l' = opts l \<and> maxFlushSize l' = maxFlushSize l \<and> flushHandler l' = flushHandler l \<and>
     resolution l' = resolution l \<and> flushInterval l' = flushInterval l"
  by (cases c) (auto simp: PushBack_def Close_def Let_def dest: Flush_static)

lemma run_static:
  "run Consume cs l = Inr l' \<Longrightarrow>
     opts l' = opts l \<and> maxFlushSize l' = maxFlushSize l \<and> flushHandler l' = flushHandler l \<and>
     resolution l' = resolution l \<and> flushInterval l' = flushInterval l"
proof (induction cs arbitrary: l)
  case Nil
  then show ?case by simp
next
  case (Cons c cs)
  then obtain l1 where s: "step Consume c l = Inr l1" and r: "run Consume cs l1 = Inr l'"
    by (auto split: sum.splits)
  from Cons.IH [OF r] step_static [OF s] show ?case by simp
qed

lemma newMetricList_flushInterval:
  "sint (flushInterval (newMetricList res os)) = max (sint res) (sint (MinFlushInterval os))"
  by (auto simp: newMetricList_def Let_def word_sless_alt split: prod.splits)

lemmas ex_defs =
  exCalls_def exPushes_def exPushed_def exNil_def exList_def exOpts_def exConsume_def exWire_def newMetricList_def
  NewAggregatedEncoder_def newMetricListMetrics_def PushBack_def Close_def Flush_def
  processAggregatedMetric_def EncodeChunkedMetricWithPolicy_def Reset_def Truncate_def
  BufferedEncoder_Reset_def flushRemaining_def collectTombstoned_def Remove_def Let_def
  exFull_def upt_conv_Cons

lemma exRun: "\<exists>l. run exConsume exCalls exList = Inr l"
  by (simp add: ex_defs)

subsection \<open>The flush interval\<close>

text \<open>
  C7. The list built by \<^verbatim>\<open>newMetricList\<close> for a resolution and options has as flush interval
  the larger of the resolution and the options' minimum flush interval (durations compared
  as signed 64-bit numbers), and after any run of calls on that list the flush interval is
  still the larger of the list's resolution and its options' minimum flush interval.
\<close>

theorem flushInterval_max:
  "sint (flushInterval (newMetricList res os :: ('e, 's) metricList)) =
     max (sint res) (sint (MinFlushInterval os)) \<and>
   (\<forall>l. run Consume cs (newMetricList res os :: ('e, 's) metricList) = Inr l \<longrightarrow>
      sint (flushInterval l) = max (sint (resolution l)) (sint (MinFlushInterval (opts l))))"
proof (intro conjI allI impI)
  show "sint (flushInterval (newMetricList res os :: ('e, 's) metricList)) =
     max (sint res) (sint (MinFlushInterval os))"
    by (rule newMetricList_flushInterval)
next
  fix l
  assume "run Consume cs (newMetricList res os :: ('e, 's) metricList) = Inr l"
  from run_static [OF this]
  have "flushInterval l = flushInterval (newMetricList res os :: ('e, 's) metricList)"
    and "resolution l = res" and "opts l = os"
    by (simp_all add: newMetricList_def Let_def split: prod.splits)
  then show "sint (flushInterval l) = max (sint (resolution l)) (sint (MinFlushInterval (opts l)))"
    by (simp add: newMetricList_flushInterval)
qed

theorem flushInterval_max_witness:
  "sint (flushInterval exList) = 5 \<and>
   (\<exists>l. run exConsume exCalls exList = Inr l \<and>
       sint (flushInterval l) = max (sint (resolution l)) (sint (MinFlushInterval (opts l))))"
proof -
  obtain l where r: "run exConsume exCalls exList = Inr l"
    using exRun by blast
  from flushInterval_max [of 3 exOpts exConsume exCalls] r
  have "sint (flushInterval l) = max (sint (resolution l)) (sint (MinFlushInterval (opts l)))"
   and "sint (flushInterval exList) = 5"
    by (simp_all add: exList_def exOpts_def)
  with r show ?thesis by blast
qed

lemma Close_closed: "closed (Close l)"
  by (simp add: Close_def)

lemma Close_Close: "Close (Close l) = Close l"
  by (simp add: Close_def)

lemma step_closed: "step Consume c l = Inr l' \<Longrightarrow> closed l \<Longrightarrow> closed l'"
  by (cases c) (auto simp: PushBack_def Close_def dest: Flush_static)

lemma run_closed: "run Consume cs l = Inr l' \<Longrightarrow> closed l \<Longrightarrow> closed l'"
proof (induction cs arbitrary: l)
  case Nil
  then show ?case by simp
next
  case (Cons c cs)
  then obtain l1 where s: "step Consume c l = Inr l1" and r: "run Consume cs l1 = Inr l'"
    by (auto split: sum.splits)
  from step_closed [OF s Cons.prems(2)] Cons.IH [OF r] show ?case by simp
qed

subsection \<open>\<^verbatim>\<open>PushBack\<close> and \<^verbatim>\<open>Close\<close>\<close>

text \<open>
  C6. Once \<^verbatim>\<open>Close\<close> has returned, every later \<^verbatim>\<open>PushBack\<close>, whatever calls the list
  received in between, fails with \<open>errListClosed\<close> and leaves the list, hence its
  aggregations, as it was. On a list that is not closed \<^verbatim>\<open>PushBack\<close> returns the handle
  of a new element that holds the payload and is last in the aggregations.
\<close>

theorem PushBack_closed:
  "(\<forall>l'. run Consume cs (Close l) = Inr l' \<longrightarrow>
      PushBack l' v = (Inl errListClosed, l') \<and>
      aggregations (snd (PushBack l' v)) = aggregations l') \<and>
   (\<not> closed l \<longrightarrow>
      fst (PushBack l v) = Inr (nextElement l) \<and>
      aggregations (snd (PushBack l v)) =
        aggregations l @ [\<lparr>ident = nextElement l, Value = v\<rparr>])"
proof (intro conjI allI impI)
  fix l'
  assume "run Consume cs (Close l) = Inr l'"
  then have "closed l'"
    by (rule run_closed) (rule Close_closed)
  then show "PushBack l' v = (Inl errListClosed, l')"
    and "aggregations (snd (PushBack l' v)) = aggregations l'"
    by (simp_all add: PushBack_def)
qed (simp_all add: PushBack_def Let_def)

theorem PushBack_closed_witness:
  "\<not> closed exList \<and>
   (\<exists>l'. run exConsume exCalls (Close exList) = Inr l' \<and>
      PushBack l' (ElemValue ([7], False)) = (Inl errListClosed, l')) \<and>
   fst (PushBack exList (ElemValue ([7], False))) = Inr 0 \<and>
   aggregations (snd (PushBack exList (ElemValue ([7], False)))) = [\<lparr>ident = 0, Value = ElemValue ([7], False)\<rparr>]"
proof -
  have o: "\<not> closed exList"
    by (simp add: ex_defs)
  have "\<exists>l'. run exConsume exCalls (Close exList) = Inr l'"
    by (simp add: ex_defs)
  then obtain l' where r: "run exConsume exCalls (Close exList) = Inr l'" ..
  from PushBack_closed [of exConsume exCalls exList "ElemValue ([7], False)"] r o
  show ?thesis by (auto simp: ex_defs)
qed

subsection \<open>Closing twice\<close>

lemma funpow_idem:
  assumes "\<And>x. f (f x) = f x"
  shows "0 < n \<Longrightarrow> (f ^^ n) x = f x"
proof (induction n)
  case 0
  then show ?case by simp
next
  case (Suc n)
  show ?case
  proof (cases n)
    case 0
    then show ?thesis by simp
  next
    case (Suc m)
    with Suc.IH have "(f ^^ n) x = f x" by simp
    then show ?thesis by (simp add: assms)
  qed
qed

lemma length_foldl_closeAt: "length (foldl closeAt h ps) = length h"
  by (induction ps arbitrary: h) (simp_all add: closeAt_def)

lemma nth_closeAt:
  "q < length h \<Longrightarrow> closeAt h p ! q = (if q = p then Close (h ! q) else h ! q)"
  by (simp add: closeAt_def nth_list_update)

lemma nth_foldl_closeAt:
  "q < length h \<Longrightarrow>
     foldl closeAt h ps ! q = (if q \<in> set ps then Close (h ! q) else h ! q)"
proof (induction ps rule: rev_induct)
  case Nil
  then show ?case by simp
next
  case (snoc p ps)
  let ?h = "foldl closeAt h ps"
  from snoc.prems have q: "q < length ?h"
    by (simp add: length_foldl_closeAt)
  have "foldl closeAt h (ps @ [p]) ! q = closeAt ?h p ! q"
    by simp
  also have "\<dots> = (if q = p then Close (?h ! q) else ?h ! q)"
    by (rule nth_closeAt [OF q])
  finally have "foldl closeAt h (ps @ [p]) ! q = (if q = p then Close (?h ! q) else ?h ! q)" .
  moreover have "?h ! q = (if q \<in> set ps then Close (h ! q) else h ! q)"
    by (rule snoc.IH [OF snoc.prems])
  ultimately show ?case
    by (cases "q = p"; cases "q \<in> set ps"; simp add: Close_Close)
qed

lemma Lists_Close_Lists_Close: "Lists_Close (Lists_Close ls) = Lists_Close ls"
  by (simp add: Lists_Close_def)

lemma newMetricLists_inv: "lists_inv (newMetricLists os)"
  by (simp add: lists_inv_def newMetricLists_def)

lemma resolution_newMetricList: "resolution (newMetricList res os) = res"
  by (simp add: newMetricList_def Let_def split: prod.splits)

lemma FindOrCreate_inv:
  assumes "lists_inv ls"
  shows "lists_inv (snd (FindOrCreate ls res))"
proof (cases "lists_closed ls \<or> map_of (listsMap ls) res \<noteq> None")
  case True
  then have "snd (FindOrCreate ls res) = ls"
    by (auto simp: FindOrCreate_def)
  with assms show ?thesis by simp
next
  case False
  then have "snd (FindOrCreate ls res) =
      ls\<lparr>heap := heap ls @ [newMetricList res (lists_opts ls)],
         flushMgr := flushMgr ls @ [length (heap ls)],
         listsMap := (res, length (heap ls)) # listsMap ls\<rparr>"
    by (auto simp: FindOrCreate_def newMetricListFn_def Let_def)
  with assms False show ?thesis
    by (auto simp: lists_inv_def nth_append resolution_newMetricList)
qed

lemma resolution_Close: "resolution (Close l) = resolution l"
  by (simp add: Close_def)

lemma Lists_Close_inv:
  assumes "lists_inv ls"
  shows "lists_inv (Lists_Close ls) \<and>
    (\<forall>(r, p) \<in> set (listsMap ls). closed (heap (Lists_Close ls) ! p))"
proof (cases "lists_closed ls")
  case True
  with assms show ?thesis
    by (auto simp: Lists_Close_def lists_inv_def)
next
  case False
  have "\<And>r p. (r, p) \<in> set (listsMap ls) \<Longrightarrow>
      p < length (heap ls) \<and> heap (Lists_Close ls) ! p = Close (heap ls ! p) \<and>
      resolution (heap ls ! p) = r"
  proof -
    fix r p
    assume m: "(r, p) \<in> set (listsMap ls)"
    with assms have p: "p < length (heap ls)" and r: "resolution (heap ls ! p) = r"
      by (auto simp: lists_inv_def)
    from m have "p \<in> set (map snd (listsMap ls))"
      by force
    with p False have "heap (Lists_Close ls) ! p = Close (heap ls ! p)"
      by (simp add: Lists_Close_def nth_foldl_closeAt)
    with p r show "p < length (heap ls) \<and> heap (Lists_Close ls) ! p = Close (heap ls ! p) \<and>
      resolution (heap ls ! p) = r"
      by simp
  qed
  moreover have "listsMap (Lists_Close ls) = listsMap ls"
    "length (heap (Lists_Close ls)) = length (heap ls)"
    by (simp_all add: Lists_Close_def length_foldl_closeAt)
  ultimately show ?thesis
    by (auto simp: lists_inv_def Close_closed resolution_Close)
qed

text \<open>
  C9. Calling \<^verbatim>\<open>Close\<close> \<open>n \<ge> 1\<close> times leaves the same state as calling it once, on a
  list and on the registry. The list's \<^verbatim>\<open>Close\<close> sets \<open>closed\<close>; the registry's sets
  its own flag, keeps the map, and on a registry that was open closes exactly the lists the
  map points to. After it every list of a well-formed registry is closed.
\<close>

theorem Close_idempotent:
  "(0 < n \<longrightarrow> (Close ^^ n) l = Close l) \<and>
   (0 < n \<longrightarrow> (Lists_Close ^^ n) ls = Lists_Close ls) \<and>
   closed (Close l) \<and>
   lists_closed (Lists_Close ls) \<and>
   listsMap (Lists_Close ls) = listsMap ls \<and>
   length (heap (Lists_Close ls)) = length (heap ls) \<and>
   (\<not> lists_closed ls \<longrightarrow>
      (\<forall>q < length (heap ls).
         heap (Lists_Close ls) ! q =
           (if q \<in> snd ` set (listsMap ls) then Close (heap ls ! q) else heap ls ! q))) \<and>
   (lists_inv ls \<longrightarrow>
      lists_inv (Lists_Close ls) \<and>
      (\<forall>(r, p) \<in> set (listsMap ls). closed (heap (Lists_Close ls) ! p)))"
proof -
  have "0 < n \<longrightarrow> (Close ^^ n) l = Close l"
    using funpow_idem [of Close n l, OF Close_Close] by simp
  moreover have "0 < n \<longrightarrow> (Lists_Close ^^ n) ls = Lists_Close ls"
    using funpow_idem [of Lists_Close n ls, OF Lists_Close_Lists_Close] by simp
  moreover have "lists_closed (Lists_Close ls)" "listsMap (Lists_Close ls) = listsMap ls"
    "length (heap (Lists_Close ls)) = length (heap ls)"
    by (simp_all add: Lists_Close_def length_foldl_closeAt)
  moreover have "\<not> lists_closed ls \<longrightarrow>
      (\<forall>q < length (heap ls).
         heap (Lists_Close ls) ! q =
           (if q \<in> snd ` set (listsMap ls) then Close (heap ls ! q) else heap ls ! q))"
    by (simp add: Lists_Close_def nth_foldl_closeAt)
  ultimately show ?thesis
    using Lists_Close_inv [of ls] by (simp add: Close_closed)
qed

lemmas ex_lists_defs =
  exLists_def FindOrCreate_def newMetricLists_def newMetricListFn_def Lists_Close_def closeAt_def

theorem Close_idempotent_witness:
  "(0::nat) < 3 \<and> \<not> lists_closed exLists \<and> lists_inv exLists \<and>
   (Close ^^ 3) exList = Close exList \<and>
   (Lists_Close ^^ 3) exLists = Lists_Close exLists \<and>
   listsMap exLists = [(7, 1), (3, 0)] \<and>
   closed (heap (Lists_Close exLists) ! 0) \<and>
   closed (heap (Lists_Close exLists) ! 1)"
proof -
  have a: "\<not> lists_closed exLists" and b: "listsMap exLists = [(7, 1), (3, 0)]"
    by (simp_all add: ex_lists_defs Let_def)
  have c: "lists_inv exLists"
    unfolding exLists_def by (intro FindOrCreate_inv newMetricLists_inv)
  from Close_idempotent [of 3 exList exLists] a b c
  show ?thesis by simp
qed

subsection \<open>\<^verbatim>\<open>FindOrCreate\<close>\<close>

lemma FindOrCreate_closed:
  "lists_closed ls \<Longrightarrow> FindOrCreate ls res = (Inl errListsClosed, ls)"
  by (simp add: FindOrCreate_def)

lemma FindOrCreate_found:
  "\<not> lists_closed ls \<Longrightarrow> map_of (listsMap ls) res = Some p \<Longrightarrow> FindOrCreate ls res = (Inr p, ls)"
  by (simp add: FindOrCreate_def)

lemma FindOrCreate_open:
  "\<not> lists_closed ls \<Longrightarrow>
     \<exists>p ls1. FindOrCreate ls res = (Inr p, ls1) \<and> \<not> lists_closed ls1 \<and>
       map_of (listsMap ls1) res = Some p \<and>
       (\<forall>r q. map_of (listsMap ls) r = Some q \<longrightarrow> map_of (listsMap ls1) r = Some q)"
  by (auto simp: FindOrCreate_def newMetricListFn_def Let_def split: option.splits)

lemma FindOrCreate_others:
  "\<not> lists_closed ls \<Longrightarrow> map_of (listsMap ls) res = Some p \<Longrightarrow>
     \<not> lists_closed (foldl (\<lambda>s r. snd (FindOrCreate s r)) ls rs) \<and>
     map_of (listsMap (foldl (\<lambda>s r. snd (FindOrCreate s r)) ls rs)) res = Some p"
proof (induction rs arbitrary: ls)
  case Nil
  then show ?case by simp
next
  case (Cons r rs)
  from FindOrCreate_open [OF Cons.prems(1), of r] Cons.prems(2)
  obtain q ls1 where "FindOrCreate ls r = (Inr q, ls1)" "\<not> lists_closed ls1"
    "map_of (listsMap ls1) res = Some p"
    by blast
  with Cons.IH [of ls1] show ?case by simp
qed

text \<open>
  C8. On a registry that is not closed \<^verbatim>\<open>FindOrCreate\<close> returns a list; a second call
  for the same resolution returns the same pointer and changes nothing, also after calls
  for other resolutions in between; in a well-formed registry the pointer refers to a list
  of that resolution. On a closed registry, and so after the registry's \<^verbatim>\<open>Close\<close>, it
  fails with \<open>errListsClosed\<close>.
\<close>

theorem FindOrCreate_same:
  "(\<not> lists_closed ls \<longrightarrow>
      (\<exists>p ls1. FindOrCreate ls res = (Inr p, ls1) \<and>
         FindOrCreate ls1 res = (Inr p, ls1) \<and>
         (let ls2 = foldl (\<lambda>s r. snd (FindOrCreate s r)) ls1 rs
          in FindOrCreate ls2 res = (Inr p, ls2)) \<and>
         (lists_inv ls \<longrightarrow> p < length (heap ls1) \<and> resolution (heap ls1 ! p) = res))) \<and>
   (lists_closed ls \<longrightarrow> FindOrCreate ls res = (Inl errListsClosed, ls)) \<and>
   FindOrCreate (Lists_Close ls) res = (Inl errListsClosed, Lists_Close ls)"
proof (intro conjI impI)
  assume o: "\<not> lists_closed ls"
  from FindOrCreate_open [OF o, of res]
  obtain p ls1 where f: "FindOrCreate ls res = (Inr p, ls1)" and o1: "\<not> lists_closed ls1"
    and m: "map_of (listsMap ls1) res = Some p"
    by blast
  have "lists_inv ls \<longrightarrow> p < length (heap ls1) \<and> resolution (heap ls1 ! p) = res"
  proof
    assume "lists_inv ls"
    from FindOrCreate_inv [OF this, of res] f have "lists_inv ls1"
      by simp
    moreover from m have "(res, p) \<in> set (listsMap ls1)"
      by (rule map_of_SomeD)
    ultimately show "p < length (heap ls1) \<and> resolution (heap ls1 ! p) = res"
      by (auto simp: lists_inv_def)
  qed
  with FindOrCreate_others [OF o1 m, of rs] FindOrCreate_found [OF o1 m] f
  show "\<exists>p ls1. FindOrCreate ls res = (Inr p, ls1) \<and>
         FindOrCreate ls1 res = (Inr p, ls1) \<and>
         (let ls2 = foldl (\<lambda>s r. snd (FindOrCreate s r)) ls1 rs
          in FindOrCreate ls2 res = (Inr p, ls2)) \<and>
         (lists_inv ls \<longrightarrow> p < length (heap ls1) \<and> resolution (heap ls1 ! p) = res)"
    by (simp add: Let_def FindOrCreate_found)
next
  have "lists_closed (Lists_Close ls)"
    by (simp add: Lists_Close_def)
  then show "FindOrCreate (Lists_Close ls) res = (Inl errListsClosed, Lists_Close ls)"
    by (rule FindOrCreate_closed)
qed (rule FindOrCreate_closed)

theorem FindOrCreate_same_witness:
  "\<not> lists_closed exLists \<and> lists_closed (Lists_Close exLists) \<and> lists_inv exLists \<and>
   fst (FindOrCreate exLists 3) = Inr 0 \<and>
   fst (FindOrCreate (snd (FindOrCreate exLists 3)) 3) = Inr 0 \<and>
   snd (FindOrCreate exLists 3) = exLists \<and>
   fst (FindOrCreate (foldl (\<lambda>s r. snd (FindOrCreate s r)) exLists [9, 7]) 3) = Inr 0 \<and>
   resolution (heap exLists ! 0) = 3 \<and>
   FindOrCreate (Lists_Close exLists) 3 = (Inl errListsClosed, Lists_Close exLists)"
proof -
  have a: "\<not> lists_closed exLists" and b: "lists_closed (Lists_Close exLists)"
    and c: "FindOrCreate exLists 3 = (Inr 0, exLists)"
    by (simp_all add: ex_lists_defs Let_def)
  have d: "lists_inv exLists"
    unfolding exLists_def by (intro FindOrCreate_inv newMetricLists_inv)
  from FindOrCreate_same [of exLists 3 "[9, 7]"] a b c d
  show ?thesis by (auto simp: Let_def)
qed

subsection \<open>A metric that cannot be encoded\<close>

text \<open>
  C3. If encoding a metric fails, the callback leaves the bytes of the encoder's buffer as
  they were before the call, hands nothing to the flush handler, adds one to
  \<open>encodeErrors\<close>, clears the encoder's error and changes nothing else; the metrics
  that follow are processed from that state.
\<close>

theorem encode_error_restores:
  assumes "snd (EncodeChunkedMetricWithPolicy (recordOf (opts l)) (encoder l) mp) = Some e"
  shows "Encoder (encoder (processAggregatedMetric l mp)) = Encoder (encoder l) \<and>
    err (encoder (processAggregatedMetric l mp)) = None \<and>
    handled (processAggregatedMetric l mp) = handled l \<and>
    encodeErrors (metrics (processAggregatedMetric l mp)) = encodeErrors (metrics l) + 1 \<and>
    processAggregatedMetric l mp =
      l\<lparr>metrics := (metrics l)\<lparr>encodeErrors := encodeErrors (metrics l) + 1\<rparr>,
        encoder := (encoder l)\<lparr>err := None\<rparr>\<rparr> \<and>
    foldl processAggregatedMetric l (mp # mps) =
      foldl processAggregatedMetric
        (l\<lparr>metrics := (metrics l)\<lparr>encodeErrors := encodeErrors (metrics l) + 1\<rparr>,
           encoder := (encoder l)\<lparr>err := None\<rparr>\<rparr>) mps"
proof -
  have "processAggregatedMetric l mp =
      l\<lparr>metrics := (metrics l)\<lparr>encodeErrors := encodeErrors (metrics l) + 1\<rparr>,
        encoder := (encoder l)\<lparr>err := None\<rparr>\<rparr>"
    using assms
    by (auto simp: processAggregatedMetric_def EncodeChunkedMetricWithPolicy_cases Let_def
        Reset_def Truncate_def split: if_splits)
  then show ?thesis by simp
qed

theorem encode_error_restores_witness:
  "snd (EncodeChunkedMetricWithPolicy (recordOf (opts (processAggregatedMetric exList 2)))
     (encoder (processAggregatedMetric exList 2)) 0) = Some errExternal \<and>
   Encoder (fst (EncodeChunkedMetricWithPolicy (recordOf (opts (processAggregatedMetric exList 2)))
     (encoder (processAggregatedMetric exList 2)) 0)) = [2, 2, 255] \<and>
   Encoder (encoder (processAggregatedMetric (processAggregatedMetric exList 2) 0)) = [2, 2] \<and>
   err (encoder (processAggregatedMetric (processAggregatedMetric exList 2) 0)) = None \<and>
   handled (processAggregatedMetric (processAggregatedMetric exList 2) 0) = [] \<and>
   encodeErrors (metrics (processAggregatedMetric (processAggregatedMetric exList 2) 0)) = 1"
proof -
  have a: "snd (EncodeChunkedMetricWithPolicy (recordOf (opts (processAggregatedMetric exList 2)))
     (encoder (processAggregatedMetric exList 2)) 0) = Some errExternal"
    by (simp add: ex_defs)
  have b: "Encoder (fst (EncodeChunkedMetricWithPolicy (recordOf (opts (processAggregatedMetric exList 2)))
     (encoder (processAggregatedMetric exList 2)) 0)) = [2, 2, 255]"
    by (simp add: ex_defs)
  from encode_error_restores [OF a, of "[]"] a b
  show ?thesis by (simp add: ex_defs)
qed

subsection \<open>The buffer after a flush\<close>

lemma flushRemaining_Encoder: "Encoder (encoder (flushRemaining l)) = []"
  by (simp add: flushRemaining_def Let_def Reset_def BufferedEncoder_Reset_def split: prod.splits)

text \<open>
  C10. When \<^verbatim>\<open>Flush\<close> returns, the buffer the encoder writes to is empty. The encoder
  that is current after the tail flush, or after a metric has been processed, is the same
  whatever the flush handler answers.
\<close>

theorem Flush_buffer_empty:
  "(\<forall>l'. Flush Consume t l = Inr l' \<longrightarrow> Encoder (encoder l') = []) \<and>
   Encoder (encoder (flushRemaining l)) = [] \<and>
   encoder (flushRemaining (l\<lparr>flushHandler := h\<rparr>)) = encoder (flushRemaining l) \<and>
   encoder (processAggregatedMetric (l\<lparr>flushHandler := h\<rparr>) mp) =
     encoder (processAggregatedMetric l mp)"
proof (intro conjI allI impI)
  fix l'
  assume "Flush Consume t l = Inr l'"
  then obtain l1 where "l' = collectTombstoned (flushRemaining l1)"
    by (auto simp: Flush_def Let_def split: sum.splits prod.splits)
  then show "Encoder (encoder l') = []"
    by (simp add: collectTombstoned_static flushRemaining_Encoder)
next
  show "Encoder (encoder (flushRemaining l)) = []"
    by (rule flushRemaining_Encoder)
next
  show "encoder (flushRemaining (l\<lparr>flushHandler := h\<rparr>)) = encoder (flushRemaining l)"
    by (simp add: flushRemaining_def Let_def split: prod.splits)
next
  show "encoder (processAggregatedMetric (l\<lparr>flushHandler := h\<rparr>) mp) =
     encoder (processAggregatedMetric l mp)"
    by (simp add: processAggregatedMetric_def Let_def split: prod.splits option.splits)
qed

theorem Flush_buffer_empty_witness:
  "\<exists>l'. Flush exConsume 10 exFull = Inr l' \<and> Encoder (encoder l') = [] \<and>
     handled l' = [ [1, 1], [3, 3, 3], [2, 2] ] \<and> flushErrors (metrics l') = 1"
proof -
  have "\<exists>l'. Flush exConsume 10 exFull = Inr l' \<and>
     handled l' = [ [1, 1], [3, 3, 3], [2, 2] ] \<and> flushErrors (metrics l') = 1"
    by (simp add: ex_defs)
  then obtain l' where r: "Flush exConsume 10 exFull = Inr l'"
    and h: "handled l' = [ [1, 1], [3, 3, 3], [2, 2] ]" "flushErrors (metrics l') = 1"
    by blast
  from Flush_buffer_empty [of exConsume 10 exFull] r have "Encoder (encoder l') = []"
    by blast
  with r h show ?thesis by blast
qed

subsection \<open>One metric through the callback\<close>

text \<open>The three ways through \<^verbatim>\<open>processAggregatedMetric\<close>.\<close>

lemma processAggregatedMetric_failed:
  "snd (EncodeChunkedMetricWithPolicy (recordOf (opts l)) (encoder l) mp) = Some e \<Longrightarrow>
   processAggregatedMetric l mp =
      l\<lparr>metrics := (metrics l)\<lparr>encodeErrors := encodeErrors (metrics l) + 1\<rparr>,
        encoder := (encoder l)\<lparr>err := None\<rparr>\<rparr>"
  by (auto simp: processAggregatedMetric_def EncodeChunkedMetricWithPolicy_cases Let_def
        Reset_def Truncate_def split: if_splits)

lemma processAggregatedMetric_buffered:
  assumes "err (encoder l) = None" and "recordOf (opts l) mp = (bs, None)"
    and "int (length (Encoder (encoder l)) + length bs) < maxFlushSize l"
  shows "processAggregatedMetric l mp =
      l\<lparr>encoder := \<lparr>Encoder = Encoder (encoder l) @ bs, err = None\<rparr>\<rparr>"
  using assms
  by (simp add: processAggregatedMetric_def EncodeChunkedMetricWithPolicy_def Let_def)

lemma processAggregatedMetric_split:
  assumes "err (encoder l) = None" and "recordOf (opts l) mp = (bs, None)"
    and "maxFlushSize l \<le> int (length (Encoder (encoder l)) + length bs)"
  shows "processAggregatedMetric l mp =
      l\<lparr>encoderPool := snd (Get (encoderPool l)),
        encoder := \<lparr>Encoder = bs, err = None\<rparr>,
        handled := handled l @ [Encoder (encoder l)],
        metrics :=
          (case flushHandler l (handled l) (Encoder (encoder l)) of
             Some e \<Rightarrow> (metrics l)\<lparr>flushErrors := flushErrors (metrics l) + 1\<rparr>
           | None \<Rightarrow> (metrics l)\<lparr>flushSuccess := flushSuccess (metrics l) + 1\<rparr>)\<rparr>"
  using assms
  by (simp add: processAggregatedMetric_def EncodeChunkedMetricWithPolicy_def Let_def
      Reset_def Truncate_def BufferedEncoder_Reset_def split: prod.splits)

lemma exBuffered_eq:
  "exBuffered = exList\<lparr>encoder := \<lparr>Encoder = [3, 3, 3], err = None\<rparr>\<rparr>"
  by (simp add: exBuffered_def ex_defs)

lemma processAggregatedMetric_whole:
  assumes "wholeRecords (recordOf (opts l)) (Encoder (encoder l))"
    and "\<forall>b \<in> set (handled l). wholeRecords (recordOf (opts l)) b"
  shows "wholeRecords (recordOf (opts l)) (Encoder (encoder (processAggregatedMetric l mp))) \<and>
    (\<forall>b \<in> set (handled (processAggregatedMetric l mp)). wholeRecords (recordOf (opts l)) b)"
proof (cases "snd (EncodeChunkedMetricWithPolicy (recordOf (opts l)) (encoder l) mp)")
  case (Some e)
  from processAggregatedMetric_failed [OF this] assms show ?thesis by simp
next
  case None
  then have e: "err (encoder l) = None" and r: "snd (recordOf (opts l) mp) = None"
    by (auto simp: EncodeChunkedMetricWithPolicy_cases split: if_splits)
  obtain bs where w: "recordOf (opts l) mp = (bs, None)"
    using r by (cases "recordOf (opts l) mp") auto
  have b: "wholeRecords (recordOf (opts l)) (Encoder (encoder l) @ bs)"
    by (rule wholeRecords_record [of "recordOf (opts l)" _ mp bs, OF assms(1) w])
  have s: "wholeRecords (recordOf (opts l)) bs"
    using wholeRecords_record [of "recordOf (opts l)" "[]" mp bs, OF wholeRecords_empty w] by simp
  show ?thesis
  proof (cases "int (length (Encoder (encoder l)) + length bs) < maxFlushSize l")
    case True
    from processAggregatedMetric_buffered [OF e w True] assms b show ?thesis by simp
  next
    case False
    then have "maxFlushSize l \<le> int (length (Encoder (encoder l)) + length bs)"
      by simp
    from processAggregatedMetric_split [OF e w this] assms s show ?thesis by simp
  qed
qed

text \<open>
  C1, as the code has it. When a metric has been encoded and the buffer has reached
  \<open>maxFlushSize\<close>, the buffer given to the flush handler is the buffer as it was before
  this metric was encoded (its length is the size before the call), and the record just
  encoded, whole, is all that the encoder's new buffer holds. Every call of the callback
  keeps the buffer and the buffers already handled sequences of whole records.
\<close>

theorem split_hands_earlier_records:
  "(err (encoder l) = None \<and> recordOf (opts l) mp = (bs, None) \<and>
    maxFlushSize l \<le> int (length (Encoder (encoder l)) + length bs) \<longrightarrow>
      handled (processAggregatedMetric l mp) = handled l @ [Encoder (encoder l)] \<and>
      Encoder (encoder (processAggregatedMetric l mp)) = bs) \<and>
   (wholeRecords (recordOf (opts l)) (Encoder (encoder l)) \<and>
    (\<forall>b \<in> set (handled l). wholeRecords (recordOf (opts l)) b) \<longrightarrow>
      wholeRecords (recordOf (opts l)) (Encoder (encoder (processAggregatedMetric l mp))) \<and>
      (\<forall>b \<in> set (handled (processAggregatedMetric l mp)). wholeRecords (recordOf (opts l)) b))"
proof (intro conjI impI)
  assume a: "err (encoder l) = None \<and> recordOf (opts l) mp = (bs, None) \<and>
    maxFlushSize l \<le> int (length (Encoder (encoder l)) + length bs)"
  then have s: "processAggregatedMetric l mp =
      l\<lparr>encoderPool := snd (Get (encoderPool l)),
        encoder := \<lparr>Encoder = bs, err = None\<rparr>,
        handled := handled l @ [Encoder (encoder l)],
        metrics :=
          (case flushHandler l (handled l) (Encoder (encoder l)) of
             Some e \<Rightarrow> (metrics l)\<lparr>flushErrors := flushErrors (metrics l) + 1\<rparr>
           | None \<Rightarrow> (metrics l)\<lparr>flushSuccess := flushSuccess (metrics l) + 1\<rparr>)\<rparr>"
    by (intro processAggregatedMetric_split) simp_all
  show "handled (processAggregatedMetric l mp) = handled l @ [Encoder (encoder l)]"
    by (simp add: s)
  show "Encoder (encoder (processAggregatedMetric l mp)) = bs"
    by (simp add: s)
next
  assume a: "wholeRecords (recordOf (opts l)) (Encoder (encoder l)) \<and>
    (\<forall>b \<in> set (handled l). wholeRecords (recordOf (opts l)) b)"
  then have "wholeRecords (recordOf (opts l)) (Encoder (encoder (processAggregatedMetric l mp))) \<and>
    (\<forall>b \<in> set (handled (processAggregatedMetric l mp)). wholeRecords (recordOf (opts l)) b)"
    by (intro processAggregatedMetric_whole) simp_all
  then show "wholeRecords (recordOf (opts l)) (Encoder (encoder (processAggregatedMetric l mp)))"
    and "\<forall>b \<in> set (handled (processAggregatedMetric l mp)). wholeRecords (recordOf (opts l)) b"
    by simp_all
qed

theorem split_hands_earlier_records_witness:
  "err (encoder exBuffered) = None \<and> recordOf (opts exBuffered) 2 = ([2, 2], None) \<and>
   maxFlushSize exBuffered \<le> int (length (Encoder (encoder exBuffered)) + length [2 :: 8 word, 2]) \<and>
   wholeRecords (recordOf (opts exBuffered)) (Encoder (encoder exBuffered)) \<and>
   handled exBuffered = [] \<and>
   handled (processAggregatedMetric exBuffered 2) = [ [3, 3, 3] ] \<and>
   Encoder (encoder (processAggregatedMetric exBuffered 2)) = [2, 2] \<and>
   wholeRecords (recordOf (opts exBuffered)) [3, 3, 3] \<and>
   wholeRecords (recordOf (opts exBuffered)) [2, 2]"
proof -
  have a: "err (encoder exBuffered) = None" "recordOf (opts exBuffered) 2 = ([2, 2], None)"
    "maxFlushSize exBuffered \<le> int (length (Encoder (encoder exBuffered)) + length [2 :: 8 word, 2])"
    "handled exBuffered = []" "Encoder (encoder exBuffered) = [3, 3, 3]"
    by (simp_all add: exBuffered_eq) (simp_all add: ex_defs)
  have "recordOf (opts exBuffered) 3 = ([3, 3, 3], None)"
    by (simp add: exBuffered_eq) (simp add: ex_defs)
  from wholeRecords_record [of "recordOf (opts exBuffered)" "[]" 3 "[3, 3, 3]",
      OF wholeRecords_empty this] a(5)
  have w: "wholeRecords (recordOf (opts exBuffered)) (Encoder (encoder exBuffered))"
    by simp
  from split_hands_earlier_records [of exBuffered 2 "[2, 2]"] a w
  show ?thesis by auto
qed

text \<open>
  The specification gives the handled buffer the length of the size before the call plus
  the record just encoded. With three bytes buffered, a record of two bytes and a maximum
  flush size of four, the handled buffer has three bytes, not five.
\<close>

theorem split_length_counterexample:
  "err (encoder exBuffered) = None \<and> recordOf (opts exBuffered) 2 = ([2, 2], None) \<and>
   length (Encoder (encoder exBuffered)) = 3 \<and>
   maxFlushSize exBuffered \<le> int (3 + length [2 :: 8 word, 2]) \<and>
   handled exBuffered = [] \<and>
   handled (processAggregatedMetric exBuffered 2) = [ [3, 3, 3] ] \<and>
   length (last (handled (processAggregatedMetric exBuffered 2))) \<noteq> 3 + length [2 :: 8 word, 2]"
  by (simp add: exBuffered_eq) (simp add: ex_defs)

subsection \<open>The bytes handed to the flush handler\<close>

lemma processAggregatedMetric_stream:
  assumes "err (encoder l) = None"
  shows "err (encoder (processAggregatedMetric l mp)) = None \<and>
    concat (handled (processAggregatedMetric l mp)) @ Encoder (encoder (processAggregatedMetric l mp)) =
      concat (handled l) @ Encoder (encoder l) @ concat (records (recordOf (opts l)) [mp])"
proof (cases "recordOf (opts l) mp")
  case (Pair bs r)
  show ?thesis
  proof (cases r)
    case (Some e)
    with Pair assms
    have "snd (EncodeChunkedMetricWithPolicy (recordOf (opts l)) (encoder l) mp) = Some e"
      by (simp add: EncodeChunkedMetricWithPolicy_def)
    from processAggregatedMetric_failed [OF this] Pair Some show ?thesis
      by (simp add: records_def)
  next
    case None
    show ?thesis
    proof (cases "int (length (Encoder (encoder l)) + length bs) < maxFlushSize l")
      case True
      from processAggregatedMetric_buffered [OF assms Pair [unfolded None] True] Pair None
      show ?thesis by (simp add: records_def)
    next
      case False
      then have "maxFlushSize l \<le> int (length (Encoder (encoder l)) + length bs)"
        by simp
      from processAggregatedMetric_split [OF assms Pair [unfolded None] this] Pair None
      show ?thesis by (simp add: records_def)
    qed
  qed
qed

lemma records_append: "records wire (xs @ ys) = records wire xs @ records wire ys"
  by (simp add: records_def)

lemma emit_stream:
  "err (encoder l) = None \<Longrightarrow>
   err (encoder (foldl processAggregatedMetric l mps)) = None \<and>
   concat (handled (foldl processAggregatedMetric l mps)) @
       Encoder (encoder (foldl processAggregatedMetric l mps)) =
     concat (handled l) @ Encoder (encoder l) @ concat (records (recordOf (opts l)) mps)"
proof (induction mps arbitrary: l)
  case Nil
  then show ?case by (simp add: records_def)
next
  case (Cons mp mps)
  from processAggregatedMetric_stream [OF Cons.prems, of mp]
  have e: "err (encoder (processAggregatedMetric l mp)) = None"
    and s: "concat (handled (processAggregatedMetric l mp)) @
        Encoder (encoder (processAggregatedMetric l mp)) =
      concat (handled l) @ Encoder (encoder l) @ concat (records (recordOf (opts l)) [mp])"
    by simp_all
  from Cons.IH [OF e] s show ?case
    using records_append [of "recordOf (opts l)" "[mp]" mps]
    by (simp add: processAggregatedMetric_static)
qed

lemma consumeElems_stream:
  "consumeElems Consume t es l = Inr (es', l') \<Longrightarrow> err (encoder l) = None \<Longrightarrow>
   err (encoder l') = None \<and>
   concat (handled l') @ Encoder (encoder l') =
     concat (handled l) @ Encoder (encoder l) @
     concat (records (recordOf (opts l)) (concat (map (emittedBy Consume t) es)))"
proof (induction es arbitrary: l es' l')
  case Nil
  then show ?case by (simp add: records_def)
next
  case (Cons e es)
  from Cons.prems(1) show ?case
  proof (rule consumeElems_Cons_Inr)
    fix mps d x' es1
    define l1 where "l1 = foldl processAggregatedMetric (l\<lparr>consumed := consumed l @ [ident e]\<rparr>) mps"
    define l2 where "l2 = (if d then l1\<lparr>elemClosed := elemClosed l1 @ [ident e],
                           toCollect := toCollect l1 @ [ident e]\<rparr> else l1)"
    assume c: "consumeResult Consume t e = Some (mps, d, x')"
      and "consumeElems Consume t es
        (let l1 = foldl processAggregatedMetric (l\<lparr>consumed := consumed l @ [ident e]\<rparr>) mps
         in if d
            then l1\<lparr>elemClosed := elemClosed l1 @ [ident e], toCollect := toCollect l1 @ [ident e]\<rparr>
            else l1) = Inr (es1, l')"
    then have r: "consumeElems Consume t es l2 = Inr (es1, l')"
      by (cases d) (simp_all add: l1_def l2_def Let_def)
    from emit_stream [of "l\<lparr>consumed := consumed l @ [ident e]\<rparr>" mps] Cons.prems(2)
    have e1: "err (encoder l1) = None"
      and s1: "concat (handled l1) @ Encoder (encoder l1) =
        concat (handled l) @ Encoder (encoder l) @ concat (records (recordOf (opts l)) mps)"
      by (simp_all add: l1_def)
    have o: "opts l2 = opts l"
      by (simp add: l2_def l1_def emit_static)
    from e1 s1 have e2: "err (encoder l2) = None"
      and s2: "concat (handled l2) @ Encoder (encoder l2) =
        concat (handled l) @ Encoder (encoder l) @ concat (records (recordOf (opts l)) mps)"
      by (simp_all add: l2_def)
    from Cons.IH [OF r e2] s2 o c show ?thesis
      by (simp add: emittedBy_def records_append)
  qed
qed

lemma flushRemaining_stream:
  "concat (handled (flushRemaining l)) = concat (handled l) @ Encoder (encoder l) \<and>
   (err (encoder l) = None \<longrightarrow> err (encoder (flushRemaining l)) = None)"
  by (simp add: flushRemaining_def Let_def Reset_def split: prod.splits)

lemma Flush_stream:
  assumes "Flush Consume t l = Inr l'" and "err (encoder l) = None"
  shows "err (encoder l') = None \<and> Encoder (encoder l') = [] \<and>
    concat (handled l') = concat (handled l) @ Encoder (encoder l) @ concat (flushRecords Consume t l)"
proof -
  from assms(1) obtain es l1 where
    c: "consumeElems Consume t (aggregations l) (l\<lparr>toCollect := []\<rparr>) = Inr (es, l1)"
    and l': "l' = collectTombstoned (flushRemaining (l1\<lparr>aggregations := es\<rparr>))"
    by (auto simp: Flush_def Let_def split: sum.splits prod.splits)
  from consumeElems_stream [OF c] assms(2)
  have e1: "err (encoder l1) = None"
    and s1: "concat (handled l1) @ Encoder (encoder l1) =
      concat (handled l) @ Encoder (encoder l) @ concat (flushRecords Consume t l)"
    by (simp_all add: flushRecords_def)
  from flushRemaining_stream [of "l1\<lparr>aggregations := es\<rparr>"] e1 s1
  show ?thesis
    by (simp add: l' collectTombstoned_static flushRemaining_Encoder)
qed

lemma step_stream:
  assumes "step Consume c l = Inr l'" and "err (encoder l) = None"
  shows "err (encoder l') = None \<and>
    concat (handled l') @ Encoder (encoder l') =
      concat (handled l) @ Encoder (encoder l) @
      concat (case c of CallFlush t \<Rightarrow> flushRecords Consume t l | _ \<Rightarrow> [])"
proof (cases c)
  case (CallPushBack v)
  with assms show ?thesis by (auto simp: PushBack_def Let_def)
next
  case CallClose
  with assms show ?thesis by (auto simp: Close_def)
next
  case (CallFlush t)
  with assms Flush_stream [of Consume t l l'] show ?thesis by simp
qed

lemma run_stream:
  "run Consume cs l = Inr l' \<Longrightarrow> err (encoder l) = None \<Longrightarrow>
   err (encoder l') = None \<and>
   concat (handled l') @ Encoder (encoder l') =
     concat (handled l) @ Encoder (encoder l) @ concat (runRecords Consume cs l)"
proof (induction cs arbitrary: l)
  case Nil
  then show ?case by simp
next
  case (Cons c cs)
  then obtain l1 where s: "step Consume c l = Inr l1" and r: "run Consume cs l1 = Inr l'"
    by (auto split: sum.splits)
  from step_stream [OF s Cons.prems(2)]
  have e1: "err (encoder l1) = None"
    and s1: "concat (handled l1) @ Encoder (encoder l1) =
      concat (handled l) @ Encoder (encoder l) @
      concat (case c of CallFlush t \<Rightarrow> flushRecords Consume t l | _ \<Rightarrow> [])"
    by simp_all
  from Cons.IH [OF r e1] s1 s show ?case by simp
qed

lemma step_Encoder_empty:
  "step Consume c l = Inr l' \<Longrightarrow> Encoder (encoder l) = [] \<Longrightarrow> Encoder (encoder l') = []"
  by (cases c) (auto simp: PushBack_def Close_def Let_def Flush_def collectTombstoned_static
      flushRemaining_Encoder split: sum.splits prod.splits)

lemma run_Encoder_empty:
  "run Consume cs l = Inr l' \<Longrightarrow> Encoder (encoder l) = [] \<Longrightarrow> Encoder (encoder l') = []"
proof (induction cs arbitrary: l)
  case Nil
  then show ?case by simp
next
  case (Cons c cs)
  then obtain l1 where s: "step Consume c l = Inr l1" and r: "run Consume cs l1 = Inr l'"
    by (auto split: sum.splits)
  from Cons.IH [OF r step_Encoder_empty [OF s Cons.prems(2)] ] show ?case .
qed

text \<open>
  C2. Over any run of calls on a list whose encoder has no error set, the handled buffers
  followed by the encoder's buffer are, concatenated, what they were before the run
  followed by the records of the metrics the run's flushes emitted and the encoder could
  encode, in order of emission, however often the buffer was split. If the buffer was empty
  before the run, it is empty after it and the handled buffers alone concatenate to these
  records.
\<close>

theorem split_preservation:
  assumes "run Consume cs l = Inr l'" and "err (encoder l) = None"
  shows "concat (handled l') @ Encoder (encoder l') =
      concat (handled l) @ Encoder (encoder l) @ concat (runRecords Consume cs l) \<and>
    (Encoder (encoder l) = [] \<longrightarrow>
       concat (handled l') = concat (handled l) @ concat (runRecords Consume cs l)) \<and>
    (Encoder (encoder l) = [] \<and> handled l = [] \<longrightarrow>
       concat (handled l') = concat (runRecords Consume cs l))"
  using run_stream [OF assms] run_Encoder_empty [OF assms(1)] by auto

theorem split_preservation_witness:
  "err (encoder exList) = None \<and> Encoder (encoder exList) = [] \<and> handled exList = [] \<and>
   runRecords exConsume exCalls exList = [ [1], [1], [3, 3, 3], [2, 2] ] \<and>
   (\<exists>l'. run exConsume exCalls exList = Inr l' \<and>
      handled l' = [ [1, 1], [3, 3, 3], [2, 2] ] \<and>
      concat (handled l') = concat (runRecords exConsume exCalls exList))"
proof -
  have a: "err (encoder exList) = None" "Encoder (encoder exList) = []" "handled exList = []"
    by (simp_all add: ex_defs)
  have b: "runRecords exConsume exCalls exList = [ [1], [1], [3, 3, 3], [2, 2] ]"
    by (simp add: ex_defs flushRecords_def records_def emittedBy_def consumeResult_def)
  have "\<exists>l'. run exConsume exCalls exList = Inr l' \<and> handled l' = [ [1, 1], [3, 3, 3], [2, 2] ]"
    by (simp add: ex_defs)
  then obtain l' where r: "run exConsume exCalls exList = Inr l'"
    and h: "handled l' = [ [1, 1], [3, 3, 3], [2, 2] ]"
    by blast
  from split_preservation [OF r a(1)] a
  have "concat (handled l') = concat (runRecords exConsume exCalls exList)"
    by simp
  with a b r h show ?thesis by blast
qed

subsection \<open>The loop over the elements and the collection\<close>

lemma consumeElems_panics:
  "(\<exists>p. consumeElems Consume t es l = Inl p) \<longleftrightarrow> (\<exists>e \<in> set es. consumeResult Consume t e = None)"
proof (induction es arbitrary: l)
  case Nil
  then show ?case by simp
next
  case (Cons e es)
  show ?case
  proof (cases "consumeResult Consume t e")
    case None
    with consumeElems_Cons_panic [OF None, of es l] show ?thesis by auto
  next
    case (Some r)
    obtain mps d x' where r: "consumeResult Consume t e = Some (mps, d, x')"
      using Some by (cases r) auto
    have "(\<exists>p. consumeElems Consume t (e # es) l = Inl p) \<longleftrightarrow>
        (\<exists>p. consumeElems Consume t es
          (let l1 = foldl processAggregatedMetric (l\<lparr>consumed := consumed l @ [ident e]\<rparr>) mps
           in if d
              then l1\<lparr>elemClosed := elemClosed l1 @ [ident e], toCollect := toCollect l1 @ [ident e]\<rparr>
              else l1) = Inl p)"
      unfolding consumeElems_Cons [OF r] by (auto split: sum.splits)
    also have "\<dots> \<longleftrightarrow> (\<exists>e \<in> set es. consumeResult Consume t e = None)"
      by (rule Cons.IH)
    finally show ?thesis using Some by simp
  qed
qed

lemma processAggregatedMetric_flushCollected:
  "flushCollected (metrics (processAggregatedMetric l mp)) = flushCollected (metrics l)"
  by (simp add: processAggregatedMetric_def Let_def split: prod.splits option.splits)

lemma emit_flushCollected:
  "flushCollected (metrics (foldl processAggregatedMetric l mps)) = flushCollected (metrics l)"
  by (induction mps arbitrary: l) (simp_all add: processAggregatedMetric_flushCollected)

lemma consumeElems_effect:
  "consumeElems Consume t es l = Inr (es', l') \<Longrightarrow>
   es' = map (afterConsume Consume t) es \<and>
   toCollect l' = toCollect l @ map ident (filter (consumeDone Consume t) es) \<and>
   elemClosed l' = elemClosed l @ map ident (filter (consumeDone Consume t) es) \<and>
   consumed l' = consumed l @ map ident es \<and>
   flushCollected (metrics l') = flushCollected (metrics l)"
proof (induction es arbitrary: l es' l')
  case Nil
  then show ?case by simp
next
  case (Cons e es)
  from Cons.prems show ?case
  proof (rule consumeElems_Cons_Inr)
    fix mps d x' es1
    define l2 where "l2 =
      (let l1 = foldl processAggregatedMetric (l\<lparr>consumed := consumed l @ [ident e]\<rparr>) mps
       in if d
          then l1\<lparr>elemClosed := elemClosed l1 @ [ident e], toCollect := toCollect l1 @ [ident e]\<rparr>
          else l1)"
    assume c: "consumeResult Consume t e = Some (mps, d, x')"
      and r: "consumeElems Consume t es
        (let l1 = foldl processAggregatedMetric (l\<lparr>consumed := consumed l @ [ident e]\<rparr>) mps
         in if d
            then l1\<lparr>elemClosed := elemClosed l1 @ [ident e], toCollect := toCollect l1 @ [ident e]\<rparr>
            else l1) = Inr (es1, l')"
      and es': "es' = afterConsume Consume t e # es1"
    from c have d: "consumeDone Consume t e = d"
      by (simp add: consumeDone_def)
    have l2: "toCollect l2 = toCollect l @ map ident (filter (consumeDone Consume t) [e])"
      "elemClosed l2 = elemClosed l @ map ident (filter (consumeDone Consume t) [e])"
      "consumed l2 = consumed l @ [ident e]"
      "flushCollected (metrics l2) = flushCollected (metrics l)"
      by (cases d; simp add: l2_def Let_def emit_static emit_flushCollected d)+
    from Cons.IH [OF r [folded l2_def] ] l2 es' show ?thesis by simp
  qed
qed

lemma foldl_Remove: "foldl Remove es is = filter (\<lambda>e. ident e \<notin> set is) es"
proof (induction "is" arbitrary: es)
  case Nil
  then show ?case by simp
next
  case (Cons i "is")
  have "filter (\<lambda>e. ident e \<notin> set is) (Remove es i) = filter (\<lambda>e. ident e \<notin> set (i # is)) es"
    by (induction es) (auto simp: Remove_def)
  with Cons.IH [of "Remove es i"] show ?case by simp
qed

lemma ident_afterConsume: "ident (afterConsume Consume t e) = ident e"
  by (simp add: afterConsume_def split: option.splits)

lemma Value_afterConsume:
  "consumeResult Consume t e \<noteq> None \<Longrightarrow>
     Value (afterConsume Consume t e) = NilValue \<longleftrightarrow> consumeDone Consume t e"
  by (auto simp: afterConsume_def consumeDone_def split: if_splits)

text \<open>The flush up to the end of the loop.\<close>

lemma consumeAll_panics:
  "(\<exists>p. consumeAll Consume t l = Inl p) \<longleftrightarrow>
     (\<exists>e \<in> set (aggregations l). consumeResult Consume t e = None)"
  using consumeElems_panics [of Consume t "aggregations l" "l\<lparr>toCollect := []\<rparr>"]
  by (auto simp: consumeAll_def Let_def split: sum.splits prod.splits)

lemma consumeAll_effect:
  assumes "consumeAll Consume t l = Inr l1"
  shows "aggregations l1 = map (afterConsume Consume t) (aggregations l)"
    and "toCollect l1 = map ident (filter (consumeDone Consume t) (aggregations l))"
    and "elemClosed l1 = elemClosed l @ map ident (filter (consumeDone Consume t) (aggregations l))"
    and "consumed l1 = consumed l @ map ident (aggregations l)"
    and "flushCollected (metrics l1) = flushCollected (metrics l)"
    and "\<forall>e \<in> set (aggregations l). consumeResult Consume t e \<noteq> None"
    and "nextElement l1 = nextElement l"
proof -
  from assms obtain es l0 where
    c: "consumeElems Consume t (aggregations l) (l\<lparr>toCollect := []\<rparr>) = Inr (es, l0)"
    and l1: "l1 = l0\<lparr>aggregations := es\<rparr>"
    by (auto simp: consumeAll_def Let_def split: sum.splits prod.splits)
  from consumeElems_effect [OF c]
  show "aggregations l1 = map (afterConsume Consume t) (aggregations l)"
    and "toCollect l1 = map ident (filter (consumeDone Consume t) (aggregations l))"
    and "elemClosed l1 = elemClosed l @ map ident (filter (consumeDone Consume t) (aggregations l))"
    and "consumed l1 = consumed l @ map ident (aggregations l)"
    and "flushCollected (metrics l1) = flushCollected (metrics l)"
    by (simp_all add: l1)
  from consumeElems_static [OF c] show "nextElement l1 = nextElement l"
    by (simp add: l1)
  from consumeAll_panics [of Consume t l] assms
  show "\<forall>e \<in> set (aggregations l). consumeResult Consume t e \<noteq> None"
    by auto
qed

lemma tombstoned_iff:
  assumes "consumeAll Consume t l = Inr l1" and "e \<in> set (aggregations l)"
  shows "Value (afterConsume Consume t e) = NilValue \<longleftrightarrow> consumeDone Consume t e"
  using consumeAll_effect(6) [OF assms(1)] assms(2) by (simp add: Value_afterConsume)

lemma Flush_FlushWith: "Flush Consume t l = FlushWith Consume t [] l"
  by (simp add: Flush_def FlushWith_def consumeAll_def Let_def split: sum.splits prod.splits)

text \<open>The calls of other goroutines between the loop and the collection.\<close>

lemma PushBack_flushRemaining:
  "snd (PushBack (flushRemaining l) v) = flushRemaining (snd (PushBack l v))"
  by (simp add: PushBack_def flushRemaining_def Let_def split: prod.splits option.splits)

lemma Close_flushRemaining: "Close (flushRemaining l) = flushRemaining (Close l)"
  by (simp add: Close_def flushRemaining_def Let_def split: prod.splits option.splits)

lemma interleaved_flushRemaining:
  "interleaved w (flushRemaining l) = flushRemaining (interleaved w l)"
proof (induction w arbitrary: l)
  case Nil
  then show ?case by simp
next
  case (Cons c w)
  then show ?case
    by (cases c) (simp_all add: PushBack_flushRemaining Close_flushRemaining)
qed

lemma interleaved_appends:
  "\<exists>ns. aggregations (interleaved w l) = aggregations l @ ns \<and>
        (\<forall>e \<in> set ns. nextElement l \<le> ident e) \<and>
        toCollect (interleaved w l) = toCollect l \<and>
        metrics (interleaved w l) = metrics l"
proof (induction w arbitrary: l)
  case Nil
  then show ?case by simp
next
  case (Cons c w)
  show ?case
  proof (cases c)
    case (ConcPushBack v)
    show ?thesis
    proof (cases "closed l")
      case True
      with Cons.IH [of l] ConcPushBack show ?thesis
        by (simp add: PushBack_def)
    next
      case False
      let ?l = "l\<lparr>aggregations := aggregations l @ [\<lparr>ident = nextElement l, Value = v\<rparr>],
                   nextElement := Suc (nextElement l)\<rparr>"
      from Cons.IH [of ?l] obtain ns where
        "aggregations (interleaved w ?l) =
           aggregations l @ \<lparr>ident = nextElement l, Value = v\<rparr> # ns"
        and "\<forall>e \<in> set ns. Suc (nextElement l) \<le> ident e"
        and "toCollect (interleaved w ?l) = toCollect l"
        and "metrics (interleaved w ?l) = metrics l"
        by auto
      moreover from this(2) have
        "\<forall>e \<in> set (\<lparr>ident = nextElement l, Value = v\<rparr> # ns). nextElement l \<le> ident e"
        by (auto dest: Suc_leD)
      ultimately show ?thesis
        using ConcPushBack False by (simp add: PushBack_def Let_def)
    qed
  next
    case ConcClose
    from Cons.IH [of "Close l"] ConcClose show ?thesis
      by (cases "closed l") (auto simp: Close_def)
  qed
qed

lemma PushBack_list_inv: "list_inv l \<Longrightarrow> list_inv (snd (PushBack l v))"
  by (auto simp: list_inv_def PushBack_def Let_def less_Suc_eq)

lemma Close_list_inv: "list_inv l \<Longrightarrow> list_inv (Close l)"
  by (cases "closed l") (simp_all add: Close_def list_inv_def)

lemma interleaved_list_inv: "list_inv l \<Longrightarrow> list_inv (interleaved w l)"
proof (induction w arbitrary: l)
  case Nil
  then show ?case by simp
next
  case (Cons c w)
  then show ?case
    by (cases c) (simp_all add: PushBack_list_inv Close_list_inv)
qed

lemma collectTombstoned_list_inv: "list_inv l \<Longrightarrow> list_inv (collectTombstoned l)"
  by (auto simp: list_inv_def collectTombstoned_def Let_def foldl_Remove distinct_map_filter)

lemma not_collected_iff:
  assumes "distinct (map ident es)" and "e \<in> set es"
  shows "ident e \<in> ident ` set (filter P es) \<longleftrightarrow> P e"
proof -
  from assms(1) have "inj_on ident (set es)"
    by (simp add: distinct_map)
  with assms(2) show ?thesis
    by (auto dest: inj_onD)
qed

text \<open>The elements after a flush during which other goroutines made the calls \<open>w\<close>.\<close>

lemma FlushWith_aggregations:
  assumes "list_inv l" and "consumeAll Consume t l = Inr l1"
    and "FlushWith Consume t w l = Inr l'"
  shows "aggregations l' =
      filter (\<lambda>e. Value e \<noteq> NilValue) (aggregations l1) @
      drop (length (aggregations l)) (aggregations (interleaved w l1))"
    and "filter (\<lambda>e. Value e \<noteq> NilValue) (aggregations l1) =
      map (afterConsume Consume t) (filter (\<lambda>e. \<not> consumeDone Consume t e) (aggregations l))"
    and "toCollect l1 = map ident (filter (\<lambda>e. Value e = NilValue) (aggregations l1))"
    and "\<forall>i \<in> set (toCollect l1). i \<notin> ident ` set (aggregations l')"
    and "flushCollected (metrics l') = flushCollected (metrics l) + length (toCollect l1)"
    and "list_inv l'"
proof -
  let ?es = "aggregations l"
  let ?tc = "map ident (filter (consumeDone Consume t) ?es)"
  note e = consumeAll_effect [OF assms(2)]
  from assms(1) have d: "distinct (map ident ?es)"
    and b: "\<forall>e \<in> set ?es. ident e < nextElement l"
    by (simp_all add: list_inv_def)
  from assms(2,3) have l': "l' = collectTombstoned (interleaved w (flushRemaining l1))"
    by (simp add: FlushWith_def)
  from interleaved_appends [of w l1] obtain ns where
    ns: "aggregations (interleaved w l1) = aggregations l1 @ ns"
    and fresh: "\<forall>e \<in> set ns. nextElement l1 \<le> ident e"
    and tc: "toCollect (interleaved w l1) = toCollect l1"
    and m: "metrics (interleaved w l1) = metrics l1"
    by blast
  have keep: "filter (\<lambda>e. ident e \<notin> set ?tc) ns = ns"
  proof (rule filter_True, rule ballI)
    fix x
    assume "x \<in> set ns"
    with fresh e(7) have "nextElement l \<le> ident x"
      by simp
    moreover from b have "\<forall>i \<in> set ?tc. i < nextElement l"
      by auto
    ultimately show "ident x \<notin> set ?tc"
      by auto
  qed
  have live: "filter (\<lambda>e. ident e \<notin> set ?tc) (aggregations l1) =
      map (afterConsume Consume t) (filter (\<lambda>e. \<not> consumeDone Consume t e) ?es)"
  proof -
    have "filter (\<lambda>e. ident e \<notin> set ?tc) (map (afterConsume Consume t) ?es) =
        map (afterConsume Consume t) (filter (\<lambda>e. ident e \<notin> set ?tc) ?es)"
      by (simp add: filter_map comp_def ident_afterConsume)
    also have "filter (\<lambda>e. ident e \<notin> set ?tc) ?es = filter (\<lambda>e. \<not> consumeDone Consume t e) ?es"
      by (rule filter_cong [OF refl])
        (simp del: set_filter add: not_collected_iff [OF d])
    finally show ?thesis by (simp add: e(1))
  qed
  have nil: "filter (\<lambda>e. Value e \<noteq> NilValue) (aggregations l1) =
      map (afterConsume Consume t) (filter (\<lambda>e. \<not> consumeDone Consume t e) ?es)"
  proof -
    have "filter (\<lambda>e. Value e \<noteq> NilValue) (map (afterConsume Consume t) ?es) =
        map (afterConsume Consume t)
          (filter (\<lambda>e. Value (afterConsume Consume t e) \<noteq> NilValue) ?es)"
      by (simp add: filter_map comp_def)
    also have "filter (\<lambda>e. Value (afterConsume Consume t e) \<noteq> NilValue) ?es =
        filter (\<lambda>e. \<not> consumeDone Consume t e) ?es"
      by (rule filter_cong [OF refl]) (simp add: tombstoned_iff [OF assms(2)])
    finally show ?thesis by (simp add: e(1))
  qed
  show "filter (\<lambda>e. Value e \<noteq> NilValue) (aggregations l1) =
      map (afterConsume Consume t) (filter (\<lambda>e. \<not> consumeDone Consume t e) ?es)"
    by (rule nil)
  have "map ident (filter (\<lambda>e. Value e = NilValue) (map (afterConsume Consume t) ?es)) =
      map ident (filter (\<lambda>e. Value (afterConsume Consume t e) = NilValue) ?es)"
    by (simp add: filter_map comp_def ident_afterConsume)
  also have "filter (\<lambda>e. Value (afterConsume Consume t e) = NilValue) ?es =
      filter (consumeDone Consume t) ?es"
    by (rule filter_cong [OF refl]) (simp add: tombstoned_iff [OF assms(2)])
  finally show tc1: "toCollect l1 = map ident (filter (\<lambda>e. Value e = NilValue) (aggregations l1))"
    by (simp add: e(1) e(2))
  have "aggregations l' =
      filter (\<lambda>e. ident e \<notin> set ?tc) (aggregations l1) @ filter (\<lambda>e. ident e \<notin> set ?tc) ns"
    by (simp add: l' collectTombstoned_def Let_def interleaved_flushRemaining
        flushRemaining_static foldl_Remove ns tc e(2))
  with keep live nil have a: "aggregations l' =
      filter (\<lambda>e. Value e \<noteq> NilValue) (aggregations l1) @ ns"
    by simp
  moreover have "drop (length ?es) (aggregations (interleaved w l1)) = ns"
    by (simp add: ns e(1))
  ultimately show "aggregations l' =
      filter (\<lambda>e. Value e \<noteq> NilValue) (aggregations l1) @
      drop (length (aggregations l)) (aggregations (interleaved w l1))"
    by simp
  have "aggregations l' = filter (\<lambda>e. ident e \<notin> set ?tc) (aggregations l1 @ ns)"
    using a keep live nil by simp
  then have "\<forall>x \<in> set (aggregations l'). ident x \<notin> set ?tc"
    by auto
  then show "\<forall>i \<in> set (toCollect l1). i \<notin> ident ` set (aggregations l')"
    unfolding e(2) by blast
  show "flushCollected (metrics l') = flushCollected (metrics l) + length (toCollect l1)"
    by (simp add: l' collectTombstoned_def Let_def interleaved_flushRemaining
        flushRemaining_static tc m e(5))
      (simp add: flushRemaining_def Let_def m e(5) split: prod.splits option.splits)
  have "list_inv l1"
    using assms(1) by (simp add: list_inv_def e(1) e(7) comp_def ident_afterConsume)
  then have "list_inv (flushRemaining l1)"
    by (simp add: list_inv_def flushRemaining_static)
  then show "list_inv l'"
    unfolding l' by (intro collectTombstoned_list_inv interleaved_list_inv)
qed

lemma Flush_list_inv:
  assumes "Flush Consume t l = Inr l'" and "list_inv l"
  shows "list_inv l'"
proof -
  from assms(1) have f: "FlushWith Consume t [] l = Inr l'"
    by (simp add: Flush_FlushWith)
  then obtain l1 where "consumeAll Consume t l = Inr l1"
    by (auto simp: FlushWith_def split: sum.splits)
  from FlushWith_aggregations(6) [OF assms(2) this f] show ?thesis .
qed

lemma step_list_inv: "step Consume c l = Inr l' \<Longrightarrow> list_inv l \<Longrightarrow> list_inv l'"
proof (cases c)
  case (CallPushBack v)
  assume "step Consume c l = Inr l'" "list_inv l"
  with CallPushBack PushBack_list_inv [of l v] show ?thesis by auto
next
  case CallClose
  assume "step Consume c l = Inr l'" "list_inv l"
  with CallClose Close_list_inv [of l] show ?thesis by auto
next
  case (CallFlush t)
  assume "step Consume c l = Inr l'" "list_inv l"
  with CallFlush Flush_list_inv [of Consume t l l'] show ?thesis by simp
qed

lemma run_list_inv: "run Consume cs l = Inr l' \<Longrightarrow> list_inv l \<Longrightarrow> list_inv l'"
proof (induction cs arbitrary: l)
  case Nil
  then show ?case by simp
next
  case (Cons c cs)
  then obtain l1 where s: "step Consume c l = Inr l1" and r: "run Consume cs l1 = Inr l'"
    by (auto split: sum.splits)
  from Cons.IH [OF r step_list_inv [OF s Cons.prems(2)] ] show ?case .
qed

lemma newMetricList_list_inv: "list_inv (newMetricList res os)"
  by (simp add: list_inv_def newMetricList_def Let_def split: prod.splits)

text \<open>
  C4, as the code has it. Take a list whose elements have distinct identities and a flush of
  it that returns, with the calls \<open>w\<close> that other goroutines made between the loop and
  the collection. At the end of the loop every element is still in the list, and its
  payload is \<^verbatim>\<open>nil\<close> exactly if \<^verbatim>\<open>Consume\<close> answered true for it; these elements are the
  ones in \<open>toCollect\<close>, and they were closed. After the flush the list holds the elements
  whose payload is not \<^verbatim>\<open>nil\<close>, as many as \<^verbatim>\<open>Consume\<close> answered false for, followed by
  the elements the other goroutines pushed, which no \<^verbatim>\<open>Consume\<close> has seen; no element of
  \<open>toCollect\<close> is left. When no other goroutine made a call, the number of elements
  left is the number of elements for which \<^verbatim>\<open>Consume\<close> answered false, and none of them
  is without payload.
\<close>

theorem Flush_collects_consumed:
  assumes "list_inv l" and "FlushWith Consume t w l = Inr l'"
  shows "\<exists>l1. consumeAll Consume t l = Inr l1 \<and>
      length (aggregations l1) = length (aggregations l) \<and>
      (\<forall>i < length (aggregations l).
         ident (aggregations l1 ! i) = ident (aggregations l ! i) \<and>
         (Value (aggregations l1 ! i) = NilValue \<longleftrightarrow>
            consumeDone Consume t (aggregations l ! i))) \<and>
      toCollect l1 = map ident (filter (\<lambda>e. Value e = NilValue) (aggregations l1)) \<and>
      elemClosed l1 = elemClosed l @ toCollect l1 \<and>
      aggregations l' =
        filter (\<lambda>e. Value e \<noteq> NilValue) (aggregations l1) @
        drop (length (aggregations l)) (aggregations (interleaved w l1)) \<and>
      length (filter (\<lambda>e. Value e \<noteq> NilValue) (aggregations l1)) =
        length (filter (\<lambda>e. \<not> consumeDone Consume t e) (aggregations l)) \<and>
      (\<forall>i \<in> set (toCollect l1). i \<notin> ident ` set (aggregations l')) \<and>
      (w = [] \<longrightarrow>
         length (aggregations l') =
           length (filter (\<lambda>e. \<not> consumeDone Consume t e) (aggregations l)) \<and>
         (\<forall>e \<in> set (aggregations l'). Value e \<noteq> NilValue)) \<and>
      flushCollected (metrics l') = flushCollected (metrics l) + length (toCollect l1) \<and>
      list_inv l'"
proof -
  from assms(2) obtain l1 where c: "consumeAll Consume t l = Inr l1"
    by (auto simp: FlushWith_def split: sum.splits)
  note e = consumeAll_effect [OF c]
  note f = FlushWith_aggregations [OF assms(1) c assms(2)]
  have n: "length (aggregations l1) = length (aggregations l)"
    by (simp add: e(1))
  have t: "\<forall>i < length (aggregations l).
         ident (aggregations l1 ! i) = ident (aggregations l ! i) \<and>
         (Value (aggregations l1 ! i) = NilValue \<longleftrightarrow>
            consumeDone Consume t (aggregations l ! i))"
    by (simp add: e(1) ident_afterConsume tombstoned_iff [OF c])
  have k: "length (filter (\<lambda>e. Value e \<noteq> NilValue) (aggregations l1)) =
        length (filter (\<lambda>e. \<not> consumeDone Consume t e) (aggregations l))"
    by (simp add: f(2))
  have a: "w = [] \<longrightarrow>
         length (aggregations l') =
           length (filter (\<lambda>e. \<not> consumeDone Consume t e) (aggregations l)) \<and>
         (\<forall>e \<in> set (aggregations l'). Value e \<noteq> NilValue)"
  proof
    assume "w = []"
    with f(1) n have "aggregations l' = filter (\<lambda>e. Value e \<noteq> NilValue) (aggregations l1)"
      by simp
    with k show "length (aggregations l') =
           length (filter (\<lambda>e. \<not> consumeDone Consume t e) (aggregations l)) \<and>
         (\<forall>e \<in> set (aggregations l'). Value e \<noteq> NilValue)"
      by simp
  qed
  have "elemClosed l1 = elemClosed l @ toCollect l1"
    by (simp add: e(2) e(3))
  with c n t k a f(1,3,4,5,6) show ?thesis
    by blast
qed

lemma exPushed_inv: "list_inv exPushed"
  unfolding exPushed_def exList_def
  by (intro PushBack_list_inv newMetricList_list_inv)

theorem Flush_collects_consumed_witness:
  "list_inv exPushed \<and>
   aggregations exPushed =
     [\<lparr>ident = 0, Value = ElemValue ([1, 1, 0, 3], True)\<rparr>,
      \<lparr>ident = 1, Value = ElemValue ([2], False)\<rparr>] \<and>
   (\<exists>l' l1. FlushWith exConsume 10 [ConcPushBack (ElemValue ([5], False))] exPushed = Inr l' \<and>
      consumeAll exConsume 10 exPushed = Inr l1 \<and>
      aggregations l1 =
        [\<lparr>ident = 0, Value = NilValue\<rparr>, \<lparr>ident = 1, Value = ElemValue ([], False)\<rparr>] \<and>
      toCollect l1 = [0] \<and> elemClosed l1 = [0] \<and>
      aggregations l' =
        [\<lparr>ident = 1, Value = ElemValue ([], False)\<rparr>,
         \<lparr>ident = 2, Value = ElemValue ([5], False)\<rparr>] \<and>
      flushCollected (metrics l') = 1) \<and>
   (\<exists>l'. FlushWith exConsume 10 [] exPushed = Inr l' \<and> length (aggregations l') = 1)"
proof -
  have g: "aggregations exPushed =
     [\<lparr>ident = 0, Value = ElemValue ([1, 1, 0, 3], True)\<rparr>,
      \<lparr>ident = 1, Value = ElemValue ([2], False)\<rparr>]"
    "elemClosed exPushed = []" "flushCollected (metrics exPushed) = 0"
    by (simp_all add: ex_defs)
  have d: "filter (\<lambda>e. \<not> consumeDone exConsume 10 e) (aggregations exPushed) =
      [\<lparr>ident = 1, Value = ElemValue ([2], False)\<rparr>]"
    by (simp add: g consumeDone_def consumeResult_def exConsume_def)
  have "\<exists>l1. consumeAll exConsume 10 exPushed = Inr l1 \<and>
      aggregations l1 =
        [\<lparr>ident = 0, Value = NilValue\<rparr>, \<lparr>ident = 1, Value = ElemValue ([], False)\<rparr>] \<and>
      nextElement l1 = 2 \<and> \<not> closed l1"
    by (simp add: consumeAll_def ex_defs)
  then obtain l1 where c: "consumeAll exConsume 10 exPushed = Inr l1"
    and a1: "aggregations l1 =
        [\<lparr>ident = 0, Value = NilValue\<rparr>, \<lparr>ident = 1, Value = ElemValue ([], False)\<rparr>]"
    and n1: "nextElement l1 = 2" "\<not> closed l1"
    by blast
  from c obtain l' where r: "FlushWith exConsume 10 [ConcPushBack (ElemValue ([5], False))] exPushed = Inr l'"
    by (simp add: FlushWith_def)
  from c obtain l'' where r0: "FlushWith exConsume 10 [] exPushed = Inr l''"
    by (simp add: FlushWith_def)
  from Flush_collects_consumed [OF exPushed_inv r] c a1 n1 g
  have "toCollect l1 = [0] \<and> elemClosed l1 = [0] \<and>
      aggregations l' =
        [\<lparr>ident = 1, Value = ElemValue ([], False)\<rparr>,
         \<lparr>ident = 2, Value = ElemValue ([5], False)\<rparr>] \<and>
      flushCollected (metrics l') = 1"
    by (auto simp: PushBack_def Let_def)
  moreover from Flush_collects_consumed [OF exPushed_inv r0] d
  have "length (aggregations l'') = 1"
    by auto
  ultimately show ?thesis
    using exPushed_inv g(1) r r0 c a1 by blast
qed

text \<open>
  The specification counts, after any flush, only the elements for which \<^verbatim>\<open>Consume\<close>
  answered false. A \<^verbatim>\<open>PushBack\<close> that runs between the loop and the collection of a flush
  adds an element that this flush never consumes: of the two elements consumed one answered
  false, and two elements are left.
\<close>

theorem Flush_concurrent_PushBack_counterexample:
  "length (aggregations exPushed) = 2 \<and>
   filter (consumeDone exConsume 10) (aggregations exPushed) =
     [\<lparr>ident = 0, Value = ElemValue ([1, 1, 0, 3], True)\<rparr>] \<and>
   \<not> isl exRaced \<and>
   consumed (projr exRaced) = [0, 1] \<and>
   map ident (aggregations (projr exRaced)) = [1, 2] \<and>
   length (aggregations (projr exRaced)) \<noteq> 1"
  by (simp add: exRaced_def FlushWith_def consumeAll_def consumeDone_def consumeResult_def ex_defs)

subsection \<open>Payloads that are not metric elements\<close>

lemma consumeResult_ElemValue:
  "consumeResult Consume t e \<noteq> None \<Longrightarrow> \<exists>x. Value e = ElemValue x"
  by (cases "Value e") (simp_all add: consumeResult_def)

text \<open>
  C5, as the code has it. The loop asserts the payload of every element to be a metric
  element: an element whose payload is \<^verbatim>\<open>nil\<close> is not skipped, the flush panics. A flush,
  with or without calls of other goroutines, panics exactly when its loop does; and the
  loop, given that the encoder, the flush handler and an element's \<^verbatim>\<open>Close\<close> return,
  panics exactly when some payload is not a metric element or the \<^verbatim>\<open>Consume\<close> of one
  panics. A loop that returns has called \<^verbatim>\<open>Consume\<close> on every element of the
  aggregations, once and in order, and every payload was a metric element.
\<close>

theorem Flush_consumes_every_handle:
  "((\<exists>e \<in> set (aggregations l). Value e = NilValue) \<longrightarrow>
      (\<exists>p. consumeAll Consume t l = Inl p)) \<and>
   ((\<exists>p. consumeAll Consume t l = Inl p) \<longleftrightarrow>
      (\<exists>e \<in> set (aggregations l). consumeResult Consume t e = None)) \<and>
   ((\<exists>p. FlushWith Consume t w l = Inl p) \<longleftrightarrow> (\<exists>p. consumeAll Consume t l = Inl p)) \<and>
   ((\<exists>p. Flush Consume t l = Inl p) \<longleftrightarrow> (\<exists>p. consumeAll Consume t l = Inl p)) \<and>
   (\<forall>l1. consumeAll Consume t l = Inr l1 \<longrightarrow>
      consumed l1 = consumed l @ map ident (aggregations l) \<and>
      (\<forall>e \<in> set (aggregations l). \<exists>x. Value e = ElemValue x))"
proof (intro conjI allI impI)
  assume "\<exists>e \<in> set (aggregations l). Value e = NilValue"
  then obtain e where "e \<in> set (aggregations l)" and "Value e = NilValue"
    by blast
  then have "e \<in> set (aggregations l)" and "consumeResult Consume t e = None"
    by (simp_all add: consumeResult_def)
  then have "\<exists>e \<in> set (aggregations l). consumeResult Consume t e = None"
    by blast
  then show "\<exists>p. consumeAll Consume t l = Inl p"
    by (simp add: consumeAll_panics)
next
  show "(\<exists>p. consumeAll Consume t l = Inl p) \<longleftrightarrow>
      (\<exists>e \<in> set (aggregations l). consumeResult Consume t e = None)"
    by (rule consumeAll_panics)
next
  show w: "(\<exists>p. FlushWith Consume t w l = Inl p) \<longleftrightarrow> (\<exists>p. consumeAll Consume t l = Inl p)" for w
    by (auto simp: FlushWith_def split: sum.splits)
  show "(\<exists>p. Flush Consume t l = Inl p) \<longleftrightarrow> (\<exists>p. consumeAll Consume t l = Inl p)"
    unfolding Flush_FlushWith by (rule w)
next
  fix l1
  assume c: "consumeAll Consume t l = Inr l1"
  show "consumed l1 = consumed l @ map ident (aggregations l)"
    by (rule consumeAll_effect(4) [OF c])
  show "\<forall>e \<in> set (aggregations l). \<exists>x. Value e = ElemValue x"
  proof
    fix e
    assume "e \<in> set (aggregations l)"
    with consumeAll_effect(6) [OF c] have "consumeResult Consume t e \<noteq> None"
      by blast
    then show "\<exists>x. Value e = ElemValue x"
      by (rule consumeResult_ElemValue)
  qed
qed

theorem Flush_consumes_every_handle_witness:
  "(\<exists>e \<in> set (aggregations exNil). Value e = NilValue) \<and>
   (\<exists>p. consumeAll exConsume 10 exNil = Inl p) \<and>
   (\<exists>p. Flush exConsume 10 exNil = Inl p) \<and>
   (\<exists>l1. consumeAll exConsume 10 exPushed = Inr l1 \<and> consumed l1 = [0, 1])"
proof -
  have a: "\<exists>e \<in> set (aggregations exNil). Value e = NilValue"
    by (simp add: ex_defs)
  have b: "consumed exPushed = []" "map ident (aggregations exPushed) = [0, 1]"
    by (simp_all add: ex_defs)
  have "\<exists>l1. consumeAll exConsume 10 exPushed = Inr l1"
    by (simp add: consumeAll_def ex_defs)
  then obtain l1 where c: "consumeAll exConsume 10 exPushed = Inr l1" ..
  from Flush_consumes_every_handle [of exNil exConsume 10 "[]"] a
  have p: "\<exists>p. consumeAll exConsume 10 exNil = Inl p" "\<exists>p. Flush exConsume 10 exNil = Inl p"
    by blast+
  from Flush_consumes_every_handle [of exPushed exConsume 10 "[]"] c b
  have "consumed l1 = [0, 1]"
    by simp
  with a p c show ?thesis by blast
qed

text \<open>
  The specification has an element without payload skipped. \<^verbatim>\<open>PushBack\<close> accepts
  \<^verbatim>\<open>nil\<close>; the next flush panics at the type assertion.
\<close>

theorem Flush_nil_payload_counterexample:
  "aggregations exNil =
     [\<lparr>ident = 0, Value = ElemValue ([1], False)\<rparr>, \<lparr>ident = 1, Value = NilValue\<rparr>] \<and>
   Flush exConsume 10 exNil = Inl InterfaceConversion"
  by (simp add: ex_defs)

end
